theory Spec2Isabelle
  imports Main
begin

section \<open>Data model of \<open>backup_func.py\<close>\<close>

text \<open>
  The exceptions the modelled code can raise: an out-of-range list index, a missing
  dictionary key, a method call on \<open>None\<close>, an unparseable date.
\<close>

datatype error = IndexError | KeyError | AttributeError | ValueError

text \<open>
  One entry of an image list: the dictionary \<open>{'id': image_id, 'created_at': created_at}\<close>
  built by \<open>get_images\<close>. The key \<open>'id'\<close> is the field \<open>image_id\<close> (\<open>id\<close> is the
  identity function of HOL). A \<open>datetime.date\<close> is its day number, so that the
  difference of two dates in days is the difference of the numbers.
\<close>

record image =
  image_id :: string
  created_at :: int

text \<open>
  One invocation of \<open>aws_remove_func(image['id'], snapshots)\<close>. The field \<open>pos\<close> is
  the value of \<open>backup_num\<close> at the call: it tells apart two list entries that carry the
  same dictionary.
\<close>

record remove_call =
  pos :: nat
  call_image_id :: string
  call_snapshots :: "string list"

text \<open>
  The class constants \<open>MAX_ORDER\<close> and \<open>DAYS_TO_KEEP_BACKUPS\<close> of \<open>BackupSet\<close>, as a
  value, and the values the source gives them.
\<close>

record policy =
  MAX_ORDER :: nat
  DAYS_TO_KEEP_BACKUPS :: int

definition shipped :: policy where
  "shipped = \<lparr>MAX_ORDER = 6, DAYS_TO_KEEP_BACKUPS = 365\<rparr>"

text \<open>
  The object state of \<open>BackupSet\<close>. \<open>today\<close> is \<open>datetime.date.today()\<close> read by the
  constructor. \<open>aws_removed\<close> is the trace of the calls of \<open>aws_remove_func\<close>, oldest call
  first. The attribute \<open>backup_days_ago\<close> does not exist before the first call of
  \<open>_update_days_ago\<close>: the constructor leaves it \<open>None\<close>, and reading it then raises
  \<open>AttributeError\<close>.
\<close>

record BackupSet =
  name :: "string option"
  images :: "image list"
  today :: int
  backup_num :: nat
  backup_days_ago :: "int option"
  all_snapshots :: "string \<rightharpoonup> string list"
  aws_removed :: "remove_call list"

definition BackupSet_init ::
  "string option \<Rightarrow> image list \<Rightarrow> int \<Rightarrow> (string \<rightharpoonup> string list) \<Rightarrow> BackupSet" where
  "BackupSet_init server_name ami_list td snaps =
     \<lparr>name = server_name, images = ami_list, today = td, backup_num = 0,
      backup_days_ago = None, all_snapshots = snaps, aws_removed = []\<rparr>"

section \<open>The cursor operations\<close>

definition update_days_ago :: "BackupSet \<Rightarrow> error + BackupSet" where
  "update_days_ago s =
     (if backup_num s < length (images s)
      then Inr (s\<lparr>backup_days_ago := Some (today s - created_at (images s ! backup_num s))\<rparr>)
      else Inl IndexError)"

text \<open>
  \<open>_inc_backup_num\<close> returns \<open>True\<close> when the cursor has left the list. The guarded call
  of \<open>_update_days_ago\<close> cannot raise, so the assignment is written out.
\<close>

definition inc_backup_num :: "BackupSet \<Rightarrow> bool \<times> BackupSet" where
  "inc_backup_num s =
     (let s1 = s\<lparr>backup_num := backup_num s + 1\<rparr>
      in if backup_num s1 < length (images s1)
         then (False,
               s1\<lparr>backup_days_ago := Some (today s1 - created_at (images s1 ! backup_num s1))\<rparr>)
         else (True, s1))"

text \<open>
  \<open>_keep_and_inc\<close> only prints, but the arguments of the print read
  \<open>self.images[self.backup_num]\<close>, which raises when the cursor is out of range, and then
  \<open>self.backup_days_ago\<close>, which raises when it was never set.
\<close>

definition keep_and_inc :: "BackupSet \<Rightarrow> error + bool \<times> BackupSet" where
  "keep_and_inc s =
     (if backup_num s < length (images s)
      then (case backup_days_ago s of
              None \<Rightarrow> Inl AttributeError
            | Some d \<Rightarrow> Inr (inc_backup_num s))
      else Inl IndexError)"

definition snapshots_of :: "(string \<rightharpoonup> string list) \<Rightarrow> string \<Rightarrow> string list" where
  "snapshots_of snaps i = (case snaps i of None \<Rightarrow> [] | Some ss \<Rightarrow> ss)"

definition call_at :: "BackupSet \<Rightarrow> nat \<Rightarrow> remove_call" where
  "call_at s i =
     \<lparr>pos = i, call_image_id = image_id (images s ! i),
      call_snapshots = snapshots_of (all_snapshots s) (image_id (images s ! i))\<rparr>"

text \<open>
  \<open>_remove_and_inc\<close> reads \<open>self.images[self.backup_num]\<close>, prints (the print reads
  \<open>self.backup_days_ago\<close>), looks the snapshots up and calls \<open>aws_remove_func\<close>.
\<close>

definition remove_and_inc :: "BackupSet \<Rightarrow> error + bool \<times> BackupSet" where
  "remove_and_inc s =
     (if backup_num s < length (images s)
      then (case backup_days_ago s of
              None \<Rightarrow> Inl AttributeError
            | Some d \<Rightarrow>
                Inr (inc_backup_num
                       (s\<lparr>aws_removed := aws_removed s @ [call_at s (backup_num s)]\<rparr>)))
      else Inl IndexError)"

lemma inc_backup_num_fields:
  "inc_backup_num s = (b, s') \<Longrightarrow>
     backup_num s' = Suc (backup_num s) \<and> images s' = images s \<and> today s' = today s
     \<and> all_snapshots s' = all_snapshots s \<and> aws_removed s' = aws_removed s \<and> name s' = name s"
  by (auto simp: inc_backup_num_def Let_def split: if_splits)

lemma remove_and_inc_fields:
  "remove_and_inc s = Inr (b, s') \<Longrightarrow>
     backup_num s < length (images s) \<and> backup_num s' = Suc (backup_num s)
     \<and> images s' = images s"
  by (auto simp: remove_and_inc_def dest!: inc_backup_num_fields split: if_splits option.splits)

lemma keep_and_inc_fields:
  "keep_and_inc s = Inr (b, s') \<Longrightarrow>
     backup_num s < length (images s) \<and> backup_num s' = Suc (backup_num s)
     \<and> images s' = images s"
  by (auto simp: keep_and_inc_def dest!: inc_backup_num_fields split: if_splits option.splits)

section \<open>The three phases of \<open>remove_old_backups\<close>\<close>

text \<open>
  The first \<open>while\<close> loop ("Remove really old backups"). The result of
  \<open>_remove_and_inc\<close> is ignored there. Every test of a loop reads
  \<open>self.backup_days_ago\<close> first.
\<close>

function remove_really_old :: "policy \<Rightarrow> BackupSet \<Rightarrow> error + BackupSet" where
  "remove_really_old p s =
     (case backup_days_ago s of
        None \<Rightarrow> Inl AttributeError
      | Some d \<Rightarrow>
          (if d > DAYS_TO_KEEP_BACKUPS p
              \<and> int (length (images s)) - int (backup_num s) \<ge> int (MAX_ORDER p)
           then (case remove_and_inc s of
                   Inl e \<Rightarrow> Inl e
                 | Inr (b, s') \<Rightarrow> remove_really_old p s')
           else Inr s))"
  by pat_completeness auto
termination
  by (relation "measure (\<lambda>(p, s). length (images s) - backup_num s)")
     (auto dest!: remove_and_inc_fields)

text \<open>
  The second loop keeps what is older than \<open>upper_bound\<close>. The Boolean of the result
  says that the method has returned from inside the loop.
\<close>

function skip_older :: "int \<Rightarrow> BackupSet \<Rightarrow> error + bool \<times> BackupSet" where
  "skip_older upper_bound s =
     (case backup_days_ago s of
        None \<Rightarrow> Inl AttributeError
      | Some d \<Rightarrow>
          (if d > upper_bound
           then (case keep_and_inc s of
                   Inl e \<Rightarrow> Inl e
                 | Inr (b, s') \<Rightarrow> if b then Inr (True, s') else skip_older upper_bound s')
           else Inr (False, s)))"
  by pat_completeness auto
termination
  by (relation "measure (\<lambda>(u, s). length (images s) - backup_num s)")
     (auto dest!: keep_and_inc_fields)

text \<open>The inner loop of a bucket ("remove all others").\<close>

function remove_others :: "int \<Rightarrow> BackupSet \<Rightarrow> error + bool \<times> BackupSet" where
  "remove_others lower_bound s =
     (case backup_days_ago s of
        None \<Rightarrow> Inl AttributeError
      | Some d \<Rightarrow>
          (if d > lower_bound
           then (case remove_and_inc s of
                   Inl e \<Rightarrow> Inl e
                 | Inr (b, s') \<Rightarrow> if b then Inr (True, s') else remove_others lower_bound s')
           else Inr (False, s)))"
  by pat_completeness auto
termination
  by (relation "measure (\<lambda>(u, s). length (images s) - backup_num s)")
     (auto dest!: remove_and_inc_fields)

text \<open>
  The \<open>for\<close> loop over \<open>range(MAX_ORDER, 1, -1)\<close>, on the list of the values of \<open>n\<close>
  still to come.
\<close>

definition orders :: "nat \<Rightarrow> nat list" where
  "orders m = rev [2 ..< Suc m]"

fun buckets :: "nat list \<Rightarrow> BackupSet \<Rightarrow> error + BackupSet" where
  "buckets [] s = Inr s"
| "buckets (n # ns) s =
     (let lower_bound = 2 ^ (n - 1)
      in case backup_days_ago s of
           None \<Rightarrow> Inl AttributeError
         | Some d \<Rightarrow>
             (if d > lower_bound
              then (case keep_and_inc s of
                      Inl e \<Rightarrow> Inl e
                    | Inr (b, s1) \<Rightarrow>
                        if b then Inr s1
                        else (case remove_others lower_bound s1 of
                                Inl e \<Rightarrow> Inl e
                              | Inr (b', s2) \<Rightarrow> if b' then Inr s2 else buckets ns s2))
              else buckets ns s))"

definition remove_old_backups :: "policy \<Rightarrow> BackupSet \<Rightarrow> error + BackupSet" where
  "remove_old_backups p s =
     (if length (images s) < MAX_ORDER p then Inr s
      else (case update_days_ago s of
              Inl e \<Rightarrow> Inl e
            | Inr s0 \<Rightarrow>
                (case remove_really_old p s0 of
                   Inl e \<Rightarrow> Inl e
                 | Inr s1 \<Rightarrow>
                     (case skip_older (2 ^ MAX_ORDER p) s1 of
                        Inl e \<Rightarrow> Inl e
                      | Inr (b, s2) \<Rightarrow>
                          if b then Inr s2 else buckets (orders (MAX_ORDER p)) s2))))"

text \<open>
  \<open>prune\<close> is the construction of a \<open>BackupSet\<close> followed by \<open>remove_old_backups\<close>, as
  \<open>lambda_handler\<close> does it.
\<close>

definition prune ::
  "policy \<Rightarrow> string option \<Rightarrow> image list \<Rightarrow> int \<Rightarrow> (string \<rightharpoonup> string list)
     \<Rightarrow> error + BackupSet" where
  "prune p nm imgs td snaps = remove_old_backups p (BackupSet_init nm imgs td snaps)"

section \<open>The catalog: \<open>get_images\<close>\<close>

text \<open>
  One element of \<open>describe_images(...)['Images']\<close>, with the four keys \<open>get_images\<close>
  reads.
\<close>

record raw_image =
  Public :: bool
  Name :: string
  ImageId :: string
  CreationDate :: string

text \<open>
  \<open>str.rfind\<close> for a single character: the highest index at which it occurs, or \<open>-1\<close>.
\<close>

primrec rfind :: "string \<Rightarrow> char \<Rightarrow> int" where
  "rfind [] c = - 1"
| "rfind (x # xs) c =
     (let r = rfind xs c in if 0 \<le> r then r + 1 else if x = c then 0 else - 1)"

text \<open>
  \<open>str.isdigit\<close> on the ASCII names EC2 allows for an image: the string is not empty and
  every character is one of the ten digits.
\<close>

definition isdigit :: "string \<Rightarrow> bool" where
  "isdigit s \<longleftrightarrow> s \<noteq> [] \<and> (\<forall>c \<in> set s. c \<in> set ''0123456789'')"

text \<open>\<open>i['CreationDate'].split('T')[0]\<close>: the text before the first \<open>T\<close>.\<close>

definition date_part :: "string \<Rightarrow> string" where
  "date_part s = takeWhile (\<lambda>c. c \<noteq> CHR ''T'') s"

text \<open>
  The loop of \<open>get_images\<close> over the response, with the dictionary \<open>all_images\<close> built so
  far. \<open>strptime\<close> stands for \<open>datetime.datetime.strptime(_, "%Y-%m-%d").date()\<close>, which
  gives the day or raises \<open>ValueError\<close> (\<open>None\<close>).
\<close>

fun get_images_from ::
  "(string \<Rightarrow> int option) \<Rightarrow> raw_image list \<Rightarrow> (string \<rightharpoonup> image list)
     \<Rightarrow> error + (string \<rightharpoonup> image list)" where
  "get_images_from strptime [] all_images = Inr all_images"
| "get_images_from strptime (i # response) all_images =
     (if \<not> Public i then
        (case strptime (date_part (CreationDate i)) of
           None \<Rightarrow> Inl ValueError
         | Some created \<Rightarrow>
             (let pos = rfind (Name i) (CHR ''-'') in
              if 0 < pos \<and> isdigit (drop (nat (pos + 1)) (Name i)) then
                (let nm = take (nat pos) (Name i);
                     all1 = (if all_images nm = None then all_images(nm \<mapsto> []) else all_images)
                 in get_images_from strptime response
                      (all1(nm \<mapsto> (case all1 nm of None \<Rightarrow> [] | Some l \<Rightarrow> l)
                                   @ [\<lparr>image_id = ImageId i, created_at = created\<rparr>])))
              else get_images_from strptime response all_images))
      else get_images_from strptime response all_images)"

definition get_images :: "(string \<Rightarrow> int option) \<Rightarrow> raw_image list \<Rightarrow> error + (string \<rightharpoonup> image list)" where
  "get_images strptime response = get_images_from strptime response Map.empty"

section \<open>The orchestrator: \<open>lambda_handler\<close>\<close>

text \<open>
  One element of the list \<open>get_instances\<close> returns, with the keys the handler reads:
  \<open>i['InstanceId']\<close>, \<open>i['Tags']\<close> (a list of \<open>Key\<close>/\<open>Value\<close> pairs, absent when the
  instance has no tag) and \<open>i['State']['Name']\<close>.
\<close>

record ec2_instance =
  InstanceId :: string
  Tags :: "(string \<times> string) list option"
  State_Name :: string

text \<open>\<open>get_tag\<close>: the value of the first tag with the key, \<open>None\<close> when there is none.\<close>

definition get_tag :: "ec2_instance \<Rightarrow> string \<Rightarrow> error + string option" where
  "get_tag inst tag_name =
     (case Tags inst of None \<Rightarrow> Inl KeyError | Some ts \<Rightarrow> Inr (map_of ts tag_name))"

definition DESC_NAMES :: "(string \<times> string) list" where
  "DESC_NAMES =
     [(''infosrv'', ''Informational Server''), (''exchange'', ''MS Exchange Server''),
      (''openvpn'', ''OpenVPC Gateway'')]"

definition PREFIX_NAMES :: "(string \<times> string) list" where
  "PREFIX_NAMES = [(''ec2'', ''EC2''), (''vpc'', ''VPC'')]"

definition format_desc_name :: "string \<Rightarrow> string \<Rightarrow> string" where
  "format_desc_name prefix nm = (if length prefix = 0 then nm else prefix @ '' '' @ nm)"

text \<open>
  The calls of the EC2 client that change something: \<open>create_image(InstanceId, Name,
  Description, NoReboot)\<close>, \<open>deregister_image(ImageId)\<close> and \<open>delete_snapshot(SnapshotId)\<close>.
\<close>

datatype ec_call =
  CreateImage string string string bool
| DeregisterImage string
| DeleteSnapshot string

text \<open>
  \<open>backup_instance\<close>, as the call of \<open>create_image\<close> it makes. \<open>strftime fmt d\<close> stands for
  \<open>d.strftime(fmt)\<close>, and \<open>td\<close> for \<open>datetime.date.today()\<close>. A name that is \<open>None\<close> is
  formatted into the image name, and then \<open>name.startswith\<close> raises.
\<close>

definition backup_instance ::
  "(string \<Rightarrow> int \<Rightarrow> string) \<Rightarrow> int \<Rightarrow> ec2_instance \<Rightarrow> string option \<Rightarrow> string \<Rightarrow> error + ec_call" where
  "backup_instance strftime td inst name_tag state =
     (case name_tag of
        None \<Rightarrow> Inl AttributeError
      | Some nm \<Rightarrow>
          (let ami_name = nm @ ''-'' @ strftime ''%m%d%y'' td in
           case (if take 4 nm = ''ec2-'' \<or> take 4 nm = ''vpc-''
                 then (case map_of PREFIX_NAMES (take 3 nm) of
                         None \<Rightarrow> Inl KeyError
                       | Some prefix \<Rightarrow> Inr (prefix, drop 4 nm))
                 else Inr ('''', nm)) of
             Inl e \<Rightarrow> Inl e
           | Inr (prefix, sname) \<Rightarrow>
               (case (case map_of DESC_NAMES sname of
                        Some d \<Rightarrow> Inr (format_desc_name prefix d)
                      | None \<Rightarrow>
                          (case get_tag inst ''aws:cloudformation:stack-name'' of
                             Inl e \<Rightarrow> Inl e
                           | Inr None \<Rightarrow> Inr (format_desc_name prefix ''Unknown'')
                           | Inr (Some cf_stack_name) \<Rightarrow>
                               Inr (format_desc_name prefix cf_stack_name))) of
                  Inl e \<Rightarrow> Inl e
                | Inr desc_name \<Rightarrow>
                    (let ami_desc = desc_name @ '' as of '' @ strftime ''%m/%d/%Y'' td;
                         noreboot = (state = ''running'')
                     in Inr (CreateImage (InstanceId inst) ami_name ami_desc noreboot)))))"

text \<open>\<open>remove_backup\<close>, as the calls it makes.\<close>

definition remove_backup :: "string \<Rightarrow> string list \<Rightarrow> ec_call list" where
  "remove_backup iid snapshots = DeregisterImage iid # map DeleteSnapshot snapshots"

text \<open>
  What the loop of \<open>lambda_handler\<close> changes: the dictionary \<open>all_images\<close> (its lists are
  sorted in place), the calls sent to EC2, and the \<open>BackupSet\<close> objects built, each as
  \<open>remove_old_backups\<close> left it.
\<close>

record world =
  all_images :: "string \<rightharpoonup> image list"
  ec_calls :: "ec_call list"
  backup_sets :: "BackupSet list"

text \<open>
  The images of a name, sorted in place (\<open>list.sort\<close> is stable, as \<open>sort_key\<close> is);
  \<open>dates[0]\<close> raises on an empty list.
\<close>

definition images_of :: "world \<Rightarrow> string option \<Rightarrow> error + image list \<times> world" where
  "images_of w name_tag =
     (case name_tag of
        None \<Rightarrow> Inr ([], w)
      | Some nm \<Rightarrow>
          (case all_images w nm of
             None \<Rightarrow> Inr ([], w)
           | Some l \<Rightarrow>
               (let imgs = sort_key created_at l in
                if imgs = [] then Inl IndexError
                else Inr (imgs, w\<lparr>all_images := (all_images w)(nm \<mapsto> imgs)\<rparr>))))"

text \<open>The body of the loop over the instances.\<close>

definition handle_instance ::
  "policy \<Rightarrow> (string \<Rightarrow> int \<Rightarrow> string) \<Rightarrow> int \<Rightarrow> (string \<rightharpoonup> string list) \<Rightarrow> world \<Rightarrow> ec2_instance
     \<Rightarrow> error + world" where
  "handle_instance p strftime td snaps w i =
     (let state = State_Name i in
      case get_tag i ''Name'' of
        Inl e \<Rightarrow> Inl e
      | Inr name_tag \<Rightarrow>
          (case get_tag i ''opsworks:stack'' of
             Inl e \<Rightarrow> Inl e
           | Inr (Some opsworks_stack) \<Rightarrow> Inr w
           | Inr None \<Rightarrow>
               (case images_of w name_tag of
                  Inl e \<Rightarrow> Inl e
                | Inr (imgs, w1) \<Rightarrow>
                    (case (if 0 < length imgs \<and> created_at (imgs ! (length imgs - 1)) = td
                           then Inr []
                           else (case backup_instance strftime td i name_tag state of
                                   Inl e \<Rightarrow> Inl e
                                 | Inr c \<Rightarrow> Inr [c])) of
                       Inl e \<Rightarrow> Inl e
                     | Inr created \<Rightarrow>
                         (case prune p name_tag imgs td snaps of
                            Inl e \<Rightarrow> Inl e
                          | Inr backup_set \<Rightarrow>
                              Inr (w1\<lparr>ec_calls := ec_calls w1 @ created
                                         @ concat (map (\<lambda>c. remove_backup (call_image_id c)
                                                            (call_snapshots c))
                                                    (aws_removed backup_set)),
                                       backup_sets := backup_sets w1 @ [backup_set]\<rparr>))))))"

fun handle_all ::
  "policy \<Rightarrow> (string \<Rightarrow> int \<Rightarrow> string) \<Rightarrow> int \<Rightarrow> (string \<rightharpoonup> string list) \<Rightarrow> world
     \<Rightarrow> ec2_instance list \<Rightarrow> error + world" where
  "handle_all p strftime td snaps w [] = Inr w"
| "handle_all p strftime td snaps w (i # instances) =
     (case handle_instance p strftime td snaps w i of
        Inl e \<Rightarrow> Inl e
      | Inr w' \<Rightarrow> handle_all p strftime td snaps w' instances)"

text \<open>
  \<open>lambda_handler\<close>, on what \<open>describe_images\<close> returned (\<open>response\<close>), the dictionary
  \<open>get_snapshots\<close> returned and the list \<open>get_instances\<close> returned. The handler and
  every \<open>BackupSet\<close> read \<open>datetime.date.today()\<close> on their own; the model gives them
  the same day \<open>td\<close>.
\<close>

definition lambda_handler ::
  "policy \<Rightarrow> (string \<Rightarrow> int \<Rightarrow> string) \<Rightarrow> (string \<Rightarrow> int option) \<Rightarrow> int \<Rightarrow> raw_image list
     \<Rightarrow> (string \<rightharpoonup> string list) \<Rightarrow> ec2_instance list \<Rightarrow> error + world" where
  "lambda_handler p strftime strptime td response snaps instances =
     (case get_images strptime response of
        Inl e \<Rightarrow> Inl e
      | Inr imgs \<Rightarrow>
          handle_all p strftime td snaps \<lparr>all_images = imgs, ec_calls = [], backup_sets = []\<rparr>
            instances)"

section \<open>Vocabulary for the properties of a run\<close>

text \<open>
  The age of every image of the list, in days: \<open>(self.today - created_at).days\<close>.
\<close>

definition ages :: "BackupSet \<Rightarrow> int list" where
  "ages s = map (\<lambda>b. today s - created_at b) (images s)"

text \<open>
  The cursor is inside the list and \<open>backup_days_ago\<close> is the age of the image under it;
  two states with the same inputs; the condition of the first loop at position \<open>i\<close>.
\<close>

definition fresh :: "BackupSet \<Rightarrow> bool" where
  "fresh s \<longleftrightarrow>
     backup_num s < length (images s) \<and> backup_days_ago s = Some (ages s ! backup_num s)"

definition same_input :: "BackupSet \<Rightarrow> BackupSet \<Rightarrow> bool" where
  "same_input s s' \<longleftrightarrow>
     images s' = images s \<and> today s' = today s \<and> all_snapshots s' = all_snapshots s"

definition by_age_rule :: "policy \<Rightarrow> int list \<Rightarrow> nat \<Rightarrow> bool" where
  "by_age_rule p as i \<longleftrightarrow> as ! i > DAYS_TO_KEEP_BACKUPS p \<and> i + MAX_ORDER p \<le> length as"

text \<open>
  The positions the deletion callback was called on, in call order, and the images that
  are left: those of the input list, in its order, whose position was never passed to the
  callback.
\<close>

definition removed_positions :: "BackupSet \<Rightarrow> nat list" where
  "removed_positions s = map pos (aws_removed s)"

definition survivors :: "BackupSet \<Rightarrow> image list" where
  "survivors s =
     map (\<lambda>i. images s ! i)
       (filter (\<lambda>i. i \<notin> set (removed_positions s)) [0 ..< length (images s)])"

text \<open>
  A group given by the ages of its images at the day \<open>td\<close>, oldest first, with the
  identifier \<open>ids i\<close> at position \<open>i\<close>.
\<close>

definition aged :: "(nat \<Rightarrow> string) \<Rightarrow> int \<Rightarrow> int list \<Rightarrow> image list" where
  "aged ids td as = map (\<lambda>i. \<lparr>image_id = ids i, created_at = td - as ! i\<rparr>) [0 ..< length as]"

text \<open>Twelve different identifiers, for the groups of the examples.\<close>

definition ami_id :: "nat \<Rightarrow> string" where
  "ami_id i =
     (if i < 12
      then [''ami-a'', ''ami-b'', ''ami-c'', ''ami-d'', ''ami-e'', ''ami-f'',
            ''ami-g'', ''ami-h'', ''ami-i'', ''ami-j'', ''ami-k'', ''ami-l''] ! i
      else ''ami'')"

text \<open>
  In a list of ages, position \<open>i\<close> follows, in one of the buckets of orders 2 to \<open>n\<close>, an
  image of the same bucket or of a lower one: the inner loop of that bucket deletes it.
\<close>

definition crowded :: "nat \<Rightarrow> int list \<Rightarrow> nat \<Rightarrow> bool" where
  "crowded n as i \<longleftrightarrow> 0 < i \<and> (\<exists>m \<in> {2 .. n}. 2 ^ (m - 1) < as ! i \<and> as ! (i - 1) \<le> 2 ^ m)"

text \<open>
  The closed form of a run on a sorted group: position \<open>i\<close> is passed to the deletion
  callback exactly when the first loop takes it, or when its predecessor was left by the
  first loop and lies with it in one bucket.
\<close>

definition doomed :: "policy \<Rightarrow> int list \<Rightarrow> nat \<Rightarrow> bool" where
  "doomed p as i \<longleftrightarrow>
     by_age_rule p as i \<or> (\<not> by_age_rule p as (i - 1) \<and> crowded (MAX_ORDER p) as i)"

text \<open>
  The bucket of order \<open>n\<close> is the interval of ages from \<open>2^(n-1)\<close>, excluded, to \<open>2^n\<close>,
  included.
\<close>

definition in_bucket :: "nat \<Rightarrow> int \<Rightarrow> bool" where
  "in_bucket n a \<longleftrightarrow> 2 ^ (n - 1) < a \<and> a \<le> 2 ^ n"

text \<open>
  The ages, at the day of the run, of the images passed to the deletion callback, in call
  order, and of the images that are left, in list order.
\<close>

definition removed_ages :: "error + BackupSet \<Rightarrow> error + int list" where
  "removed_ages r =
     map_sum id (\<lambda>s. map (\<lambda>i. today s - created_at (images s ! i)) (removed_positions s)) r"

definition kept_ages :: "error + BackupSet \<Rightarrow> error + int list" where
  "kept_ages r = map_sum id (\<lambda>s. map (\<lambda>b. today s - created_at b) (survivors s)) r"

text \<open>The calls of the deletion callback of a run, in call order.\<close>

definition deletion_calls :: "error + BackupSet \<Rightarrow> error + remove_call list" where
  "deletion_calls r = map_sum id aws_removed r"

text \<open>
  The condition of the claim on a name, in its words: the name has a \<open>-\<close> at a position
  \<open>k\<close> greater than 0 and all that follows it is digits; the resource name is what stands
  before that \<open>-\<close>.
\<close>

definition named_for :: "string \<Rightarrow> string \<Rightarrow> bool" where
  "named_for nm key \<longleftrightarrow>
     (\<exists>k \<in> {1 ..< length nm}. nm ! k = CHR ''-'' \<and> isdigit (drop (Suc k) nm) \<and> key = take k nm)"

text \<open>The dictionary entry \<open>get_images\<close> appends for an image of the response.\<close>

definition entry :: "(string \<Rightarrow> int option) \<Rightarrow> raw_image \<Rightarrow> image" where
  "entry strptime i =
     \<lparr>image_id = ImageId i, created_at = the (strptime (date_part (CreationDate i)))\<rparr>"

text \<open>
  The key \<open>get_images\<close> files a name under, as its test and its slice compute it;
  \<open>None\<close> when the test fails.
\<close>

definition group_key :: "string \<Rightarrow> string option" where
  "group_key nm =
     (let pos = rfind nm (CHR ''-'') in
      if 0 < pos \<and> isdigit (drop (nat (pos + 1)) nm) then Some (take (nat pos) nm) else None)"

text \<open>The list a dictionary of image lists holds for a key, empty when the key is absent.\<close>

definition group_of :: "(string \<rightharpoonup> image list) \<Rightarrow> string \<Rightarrow> image list" where
  "group_of groups key = (case groups key of None \<Rightarrow> [] | Some l \<Rightarrow> l)"

text \<open>
  The instances the handler does not ignore, and the name it works under, for the
  statements about a whole invocation.
\<close>

definition is_processed :: "ec2_instance \<Rightarrow> bool" where
  "is_processed i \<longleftrightarrow> get_tag i ''opsworks:stack'' = Inr None"

definition resource_name :: "ec2_instance \<Rightarrow> string" where
  "resource_name i = (case get_tag i ''Name'' of Inr (Some n) \<Rightarrow> n | _ \<Rightarrow> [])"

text \<open>
  The condition of the claim on an image of the response: it is not public, and its
  name has a \<open>-\<close> at a position greater than 0 that only digits follow.
\<close>

definition accepted :: "raw_image \<Rightarrow> bool" where
  "accepted i \<longleftrightarrow>
     \<not> Public i
     \<and> (\<exists>k \<in> {1 ..< length (Name i)}. Name i ! k = CHR ''-'' \<and> isdigit (drop (Suc k) (Name i)))"

text \<open>
  For the scenarios below: the renderings of one day, numbered 100 (3 November 2026), and
  the reading of the two dates the scenarios use.
\<close>

definition strftime_day100 :: "string \<Rightarrow> int \<Rightarrow> string" where
  "strftime_day100 fmt d = (if fmt = ''%m%d%y'' then ''110326'' else ''11/03/2026'')"

definition strptime_nov2026 :: "string \<Rightarrow> int option" where
  "strptime_nov2026 s =
     (if s = ''2026-11-02'' then Some 99 else if s = ''2026-11-03'' then Some 100 else None)"

text \<open>
  The inputs of the scenarios: an instance \<open>web\<close> that has one image of the day before,
  and a response that mixes an accepted image with a public one and with names that do
  not end in a \<open>-\<close> and digits.
\<close>

definition web_history :: "raw_image list" where
  "web_history =
     [\<lparr>Public = False, Name = ''web-110226'', ImageId = ''ami-1'',
       CreationDate = ''2026-11-02T10:00:00.000Z''\<rparr>]"

definition web_server :: "ec2_instance list" where
  "web_server = [\<lparr>InstanceId = ''i-1'', Tags = Some [(''Name'', ''web'')], State_Name = ''running''\<rparr>]"

definition mixed_response :: "raw_image list" where
  "mixed_response =
     [\<lparr>Public = False, Name = ''web-110226'', ImageId = ''ami-1'',
       CreationDate = ''2026-11-02T10:00:00.000Z''\<rparr>,
      \<lparr>Public = True, Name = ''web-110326'', ImageId = ''ami-2'',
       CreationDate = ''2026-11-03T10:00:00.000Z''\<rparr>,
      \<lparr>Public = False, Name = ''database'', ImageId = ''ami-3'',
       CreationDate = ''2026-11-02T10:00:00.000Z''\<rparr>,
      \<lparr>Public = False, Name = ''-110226'', ImageId = ''ami-4'',
       CreationDate = ''2026-11-02T10:00:00.000Z''\<rparr>,
      \<lparr>Public = False, Name = ''web-'', ImageId = ''ami-5'',
       CreationDate = ''2026-11-02T10:00:00.000Z''\<rparr>,
      \<lparr>Public = False, Name = ''web-v2'', ImageId = ''ami-6'',
       CreationDate = ''2026-11-02T10:00:00.000Z''\<rparr>]"

section \<open>What each loop does\<close>

declare remove_really_old.simps [simp del] skip_older.simps [simp del]
  remove_others.simps [simp del] buckets.simps(2) [simp del]

lemma same_input_refl: "same_input s s"
  by (simp add: same_input_def)

lemma same_input_trans: "same_input s s1 \<Longrightarrow> same_input s1 s2 \<Longrightarrow> same_input s s2"
  by (simp add: same_input_def)

lemma same_input_ages: "same_input s s' \<Longrightarrow> ages s' = ages s"
  by (simp add: same_input_def ages_def)

lemma same_input_call_at: "same_input s s' \<Longrightarrow> call_at s' = call_at s"
  by (rule ext) (simp add: same_input_def call_at_def)

lemma same_input_length: "same_input s s' \<Longrightarrow> length (images s') = length (images s)"
  by (simp add: same_input_def)

lemma length_ages: "length (ages s) = length (images s)"
  by (simp add: ages_def)

lemma age_rule_cond:
  "(ages s ! backup_num s > DAYS_TO_KEEP_BACKUPS p
      \<and> int (length (images s)) - int (backup_num s) \<ge> int (MAX_ORDER p))
     = by_age_rule p (ages s) (backup_num s)"
  by (auto simp: by_age_rule_def length_ages)

lemma remove_really_old_fresh:
  "fresh s \<Longrightarrow>
     remove_really_old p s =
       (if ages s ! backup_num s > DAYS_TO_KEEP_BACKUPS p
           \<and> int (length (images s)) - int (backup_num s) \<ge> int (MAX_ORDER p)
        then (case remove_and_inc s of
                Inl e \<Rightarrow> Inl e
              | Inr (b, s') \<Rightarrow> remove_really_old p s')
        else Inr s)"
  by (subst remove_really_old.simps) (simp add: fresh_def)

lemma skip_older_fresh:
  "fresh s \<Longrightarrow>
     skip_older u s =
       (if ages s ! backup_num s > u
        then (case keep_and_inc s of
                Inl e \<Rightarrow> Inl e
              | Inr (b, s') \<Rightarrow> if b then Inr (True, s') else skip_older u s')
        else Inr (False, s))"
  by (subst skip_older.simps) (simp add: fresh_def)

lemma remove_others_fresh:
  "fresh s \<Longrightarrow>
     remove_others u s =
       (if ages s ! backup_num s > u
        then (case remove_and_inc s of
                Inl e \<Rightarrow> Inl e
              | Inr (b, s') \<Rightarrow> if b then Inr (True, s') else remove_others u s')
        else Inr (False, s))"
  by (subst remove_others.simps) (simp add: fresh_def)

lemma buckets_fresh:
  "fresh s \<Longrightarrow>
     buckets (n # ns) s =
       (if ages s ! backup_num s > 2 ^ (n - 1)
        then (case keep_and_inc s of
                Inl e \<Rightarrow> Inl e
              | Inr (b, s1) \<Rightarrow>
                  if b then Inr s1
                  else (case remove_others (2 ^ (n - 1)) s1 of
                          Inl e \<Rightarrow> Inl e
                        | Inr (b', s2) \<Rightarrow> if b' then Inr s2 else buckets ns s2))
        else buckets ns s)"
proof -
  assume "fresh s"
  then have d: "backup_days_ago s = Some (ages s ! backup_num s)" by (simp add: fresh_def)
  show ?thesis by (simp only: buckets.simps Let_def d option.case)
qed

lemma inc_step:
  assumes "backup_num s < length (images s)"
  shows "\<exists>s'. inc_backup_num s = (\<not> Suc (backup_num s) < length (images s), s')
           \<and> same_input s s' \<and> backup_num s' = Suc (backup_num s)
           \<and> aws_removed s' = aws_removed s
           \<and> (Suc (backup_num s) < length (images s) \<longrightarrow> fresh s')"
  by (simp add: inc_backup_num_def Let_def same_input_def fresh_def ages_def)

lemma keep_step:
  assumes "fresh s"
  shows "\<exists>s'. keep_and_inc s = Inr (\<not> Suc (backup_num s) < length (images s), s')
           \<and> same_input s s' \<and> backup_num s' = Suc (backup_num s)
           \<and> aws_removed s' = aws_removed s
           \<and> (Suc (backup_num s) < length (images s) \<longrightarrow> fresh s')"
proof -
  have c: "backup_num s < length (images s)" using assms by (simp add: fresh_def)
  from inc_step [OF c] c assms show ?thesis by (simp add: keep_and_inc_def fresh_def)
qed

lemma remove_step:
  assumes "fresh s"
  shows "\<exists>s'. remove_and_inc s = Inr (\<not> Suc (backup_num s) < length (images s), s')
           \<and> same_input s s' \<and> backup_num s' = Suc (backup_num s)
           \<and> aws_removed s' = aws_removed s @ [call_at s (backup_num s)]
           \<and> (Suc (backup_num s) < length (images s) \<longrightarrow> fresh s')"
proof -
  let ?t = "s\<lparr>aws_removed := aws_removed s @ [call_at s (backup_num s)]\<rparr>"
  have c: "backup_num s < length (images s)" using assms by (simp add: fresh_def)
  then have t: "backup_num ?t < length (images ?t)" by simp
  from inc_step [OF t] obtain s' where
    "inc_backup_num ?t = (\<not> Suc (backup_num ?t) < length (images ?t), s')"
    "same_input ?t s'" "backup_num s' = Suc (backup_num ?t)"
    "aws_removed s' = aws_removed ?t"
    "Suc (backup_num ?t) < length (images ?t) \<longrightarrow> fresh s'"
    by blast
  then show ?thesis using assms c
    by (auto simp: remove_and_inc_def same_input_def fresh_def)
qed

lemma remove_really_old_run:
  assumes "fresh s" and "2 \<le> MAX_ORDER p"
  shows "\<exists>s'. remove_really_old p s = Inr s' \<and> same_input s s' \<and> fresh s'
           \<and> backup_num s \<le> backup_num s'
           \<and> aws_removed s' = aws_removed s @ map (call_at s) [backup_num s ..< backup_num s']
           \<and> (\<forall>i \<in> {backup_num s ..< backup_num s'}. by_age_rule p (ages s) i)
           \<and> \<not> by_age_rule p (ages s) (backup_num s')"
  using assms
proof (induction p s rule: remove_really_old.induct)
  case (1 p s)
  let ?c = "backup_num s"
  note fr = "1.prems"(1)
  have c: "?c < length (images s)" and d: "backup_days_ago s = Some (ages s ! ?c)"
    using fr by (simp_all add: fresh_def)
  show ?case
  proof (cases "by_age_rule p (ages s) ?c")
    case False
    then have nc: "\<not> (ages s ! ?c > DAYS_TO_KEEP_BACKUPS p
         \<and> int (length (images s)) - int (backup_num s) \<ge> int (MAX_ORDER p))"
      using age_rule_cond [where s = s and p = p] by simp
    have "remove_really_old p s = Inr s"
      by (subst remove_really_old_fresh [OF fr]) (use nc in auto)
    then show ?thesis using False "1.prems"(1) by (simp add: same_input_refl)
  next
    case True
    then have cond: "ages s ! ?c > DAYS_TO_KEEP_BACKUPS p
         \<and> int (length (images s)) - int (backup_num s) \<ge> int (MAX_ORDER p)"
      using age_rule_cond [where s = s and p = p] by simp
    have more: "Suc ?c < length (images s)"
      using True "1.prems"(2) by (simp add: by_age_rule_def length_ages)
    from remove_step [OF fr] more obtain s1 where
      s1: "remove_and_inc s = Inr (False, s1)" "same_input s s1" "backup_num s1 = Suc ?c"
        "aws_removed s1 = aws_removed s @ [call_at s ?c]" "fresh s1"
      by auto
    from "1.IH" [OF d cond s1(1) refl s1(5) "1.prems"(2)] obtain s' where
      s': "remove_really_old p s1 = Inr s'" "same_input s1 s'" "fresh s'"
        "backup_num s1 \<le> backup_num s'"
        "aws_removed s' = aws_removed s1 @ map (call_at s1) [backup_num s1 ..< backup_num s']"
        "\<forall>i \<in> {backup_num s1 ..< backup_num s'}. by_age_rule p (ages s1) i"
        "\<not> by_age_rule p (ages s1) (backup_num s')"
      by blast
    have run: "remove_really_old p s = Inr s'"
      using cond s1(1) s'(1) by (simp add: remove_really_old_fresh [OF fr])
    have lt: "?c < backup_num s'" using s1(3) s'(4) by simp
    have log: "aws_removed s' = aws_removed s @ map (call_at s) [?c ..< backup_num s']"
      using s'(5) s1(3,4) same_input_call_at [OF s1(2)] lt by (simp add: upt_conv_Cons)
    have all: "\<forall>i \<in> {?c ..< backup_num s'}. by_age_rule p (ages s) i"
    proof
      fix i assume i: "i \<in> {?c ..< backup_num s'}"
      show "by_age_rule p (ages s) i"
      proof (cases "i = ?c")
        case True then show ?thesis using \<open>by_age_rule p (ages s) ?c\<close> by simp
      next
        case False
        then have "i \<in> {backup_num s1 ..< backup_num s'}" using i s1(3) by simp
        then show ?thesis using s'(6) same_input_ages [OF s1(2)] by simp
      qed
    qed
    show ?thesis
      using run same_input_trans [OF s1(2) s'(2)] s'(3) lt log all s'(7)
        same_input_ages [OF s1(2)] by auto
  qed
qed

lemma skip_older_run:
  assumes "fresh s"
  shows "\<exists>b s'. skip_older u s = Inr (b, s') \<and> same_input s s'
           \<and> backup_num s \<le> backup_num s' \<and> aws_removed s' = aws_removed s
           \<and> (\<forall>i \<in> {backup_num s ..< backup_num s'}. ages s ! i > u)
           \<and> (if b then backup_num s' = length (images s)
               else fresh s' \<and> ages s ! backup_num s' \<le> u)"
  using assms
proof (induction u s rule: skip_older.induct)
  case (1 u s)
  let ?c = "backup_num s"
  note fr = "1.prems"
  have c: "?c < length (images s)" and d: "backup_days_ago s = Some (ages s ! ?c)"
    using fr by (simp_all add: fresh_def)
  show ?case
  proof (cases "ages s ! ?c > u")
    case False
    then have "skip_older u s = Inr (False, s)"
      by (simp add: skip_older_fresh [OF fr])
    then show ?thesis using False "1.prems"
      by (intro exI [of _ False] exI [of _ s]) (simp add: same_input_refl)
  next
    case True
    from keep_step [OF fr] obtain s1 where
      s1: "keep_and_inc s = Inr (\<not> Suc ?c < length (images s), s1)" "same_input s s1"
        "backup_num s1 = Suc ?c" "aws_removed s1 = aws_removed s"
        "Suc ?c < length (images s) \<longrightarrow> fresh s1"
      by blast
    show ?thesis
    proof (cases "Suc ?c < length (images s)")
      case False
      then have "skip_older u s = Inr (True, s1)"
        using True s1(1) by (simp add: skip_older_fresh [OF fr])
      moreover have "length (images s) = Suc ?c" using False c by simp
      moreover have "\<forall>i \<in> {?c ..< Suc ?c}. ages s ! i > u" using True by simp
      ultimately show ?thesis using s1(2,3,4)
        by (intro exI [of _ True] exI [of _ s1]) simp
    next
      case more: True
      then have k: "keep_and_inc s = Inr (False, s1)" and f1: "fresh s1"
        using s1 by simp_all
      from "1.IH" [OF d True k refl _ f1] obtain b s' where
        s': "skip_older u s1 = Inr (b, s')" "same_input s1 s'"
          "backup_num s1 \<le> backup_num s'" "aws_removed s' = aws_removed s1"
          "\<forall>i \<in> {backup_num s1 ..< backup_num s'}. ages s1 ! i > u"
          "if b then backup_num s' = length (images s1)
           else fresh s' \<and> ages s1 ! backup_num s' \<le> u"
        by auto
      have run: "skip_older u s = Inr (b, s')"
        using True k s'(1) by (simp add: skip_older_fresh [OF fr])
      have all: "\<forall>i \<in> {?c ..< backup_num s'}. ages s ! i > u"
      proof
        fix i assume i: "i \<in> {?c ..< backup_num s'}"
        show "ages s ! i > u"
        proof (cases "i = ?c")
          case True then show ?thesis using \<open>ages s ! ?c > u\<close> by simp
        next
          case False
          then have "i \<in> {backup_num s1 ..< backup_num s'}" using i s1(3) by simp
          then show ?thesis using s'(5) same_input_ages [OF s1(2)] by simp
        qed
      qed
      show ?thesis
        using run same_input_trans [OF s1(2) s'(2)] s'(3,4,6) s1(3,4) all
          same_input_ages [OF s1(2)] same_input_length [OF s1(2)]
        by (intro exI [of _ b] exI [of _ s']) (simp split: if_splits)
    qed
  qed
qed

lemma remove_others_run:
  assumes "fresh s"
  shows "\<exists>b s'. remove_others u s = Inr (b, s') \<and> same_input s s'
           \<and> backup_num s \<le> backup_num s'
           \<and> aws_removed s' = aws_removed s @ map (call_at s) [backup_num s ..< backup_num s']
           \<and> (\<forall>i \<in> {backup_num s ..< backup_num s'}. ages s ! i > u)
           \<and> (if b then backup_num s' = length (images s)
               else fresh s' \<and> ages s ! backup_num s' \<le> u)"
  using assms
proof (induction u s rule: remove_others.induct)
  case (1 u s)
  let ?c = "backup_num s"
  note fr = "1.prems"
  have c: "?c < length (images s)" and d: "backup_days_ago s = Some (ages s ! ?c)"
    using fr by (simp_all add: fresh_def)
  show ?case
  proof (cases "ages s ! ?c > u")
    case False
    then have "remove_others u s = Inr (False, s)"
      by (simp add: remove_others_fresh [OF fr])
    then show ?thesis using False "1.prems"
      by (intro exI [of _ False] exI [of _ s]) (simp add: same_input_refl)
  next
    case True
    from remove_step [OF fr] obtain s1 where
      s1: "remove_and_inc s = Inr (\<not> Suc ?c < length (images s), s1)" "same_input s s1"
        "backup_num s1 = Suc ?c" "aws_removed s1 = aws_removed s @ [call_at s ?c]"
        "Suc ?c < length (images s) \<longrightarrow> fresh s1"
      by blast
    show ?thesis
    proof (cases "Suc ?c < length (images s)")
      case False
      then have "remove_others u s = Inr (True, s1)"
        using True s1(1) by (simp add: remove_others_fresh [OF fr])
      moreover have "length (images s) = Suc ?c" using False c by simp
      moreover have "\<forall>i \<in> {?c ..< Suc ?c}. ages s ! i > u" using True by simp
      ultimately show ?thesis using s1(2,3,4)
        by (intro exI [of _ True] exI [of _ s1]) simp
    next
      case more: True
      then have k: "remove_and_inc s = Inr (False, s1)" and f1: "fresh s1"
        using s1 by simp_all
      from "1.IH" [OF d True k refl _ f1] obtain b s' where
        s': "remove_others u s1 = Inr (b, s')" "same_input s1 s'"
          "backup_num s1 \<le> backup_num s'"
          "aws_removed s' = aws_removed s1 @ map (call_at s1) [backup_num s1 ..< backup_num s']"
          "\<forall>i \<in> {backup_num s1 ..< backup_num s'}. ages s1 ! i > u"
          "if b then backup_num s' = length (images s1)
           else fresh s' \<and> ages s1 ! backup_num s' \<le> u"
        by auto
      have run: "remove_others u s = Inr (b, s')"
        using True k s'(1) by (simp add: remove_others_fresh [OF fr])
      have lt: "?c < backup_num s'" using s1(3) s'(3) by simp
      have log: "aws_removed s' = aws_removed s @ map (call_at s) [?c ..< backup_num s']"
        using s'(4) s1(3,4) same_input_call_at [OF s1(2)] lt by (simp add: upt_conv_Cons)
      have all: "\<forall>i \<in> {?c ..< backup_num s'}. ages s ! i > u"
      proof
        fix i assume i: "i \<in> {?c ..< backup_num s'}"
        show "ages s ! i > u"
        proof (cases "i = ?c")
          case True then show ?thesis using \<open>ages s ! ?c > u\<close> by simp
        next
          case False
          then have "i \<in> {backup_num s1 ..< backup_num s'}" using i s1(3) by simp
          then show ?thesis using s'(5) same_input_ages [OF s1(2)] by simp
        qed
      qed
      show ?thesis
        using run same_input_trans [OF s1(2) s'(2)] s'(3,6) s1(3) all log
          same_input_ages [OF s1(2)] same_input_length [OF s1(2)]
        by (intro exI [of _ b] exI [of _ s']) (simp split: if_splits)
    qed
  qed
qed

section \<open>The bucket loop on a sorted group\<close>

lemma ages_antimono:
  assumes "sorted (map created_at (images s))" and "i \<le> j" and "j < length (images s)"
  shows "ages s ! j \<le> ages s ! i"
proof -
  have "map created_at (images s) ! i \<le> map created_at (images s) ! j"
    using assms by (intro sorted_nth_mono) simp_all
  then show ?thesis using assms by (simp add: ages_def)
qed

lemma same_input_sorted:
  "same_input s s' \<Longrightarrow> sorted (map created_at (images s)) \<Longrightarrow> sorted (map created_at (images s'))"
  by (simp add: same_input_def)

lemma orders_small: "orders 0 = []" "orders (Suc 0) = []"
  by (simp_all add: orders_def)

lemma orders_Suc: "1 \<le> n \<Longrightarrow> orders (Suc n) = Suc n # orders n"
  by (simp add: orders_def)

lemma crowded_small: "n < 2 \<Longrightarrow> \<not> crowded n as i"
  by (simp add: crowded_def)

lemma crowded_Suc:
  "1 \<le> n \<Longrightarrow> crowded (Suc n) as i \<longleftrightarrow>
     crowded n as i \<or> (0 < i \<and> 2 ^ n < as ! i \<and> as ! (i - 1) \<le> 2 ^ Suc n)"
proof -
  assume "1 \<le> n"
  then have "{2 .. Suc n} = insert (Suc n) {2 .. n}"
    by (intro atLeastAtMostSuc_conv) simp
  then show ?thesis by (auto simp: crowded_def)
qed

lemma crowded_low: "crowded n as i \<Longrightarrow> as ! (i - 1) \<le> 2 ^ n"
proof -
  assume "crowded n as i"
  then obtain m where m: "m \<le> n" "as ! (i - 1) \<le> 2 ^ m"
    by (auto simp: crowded_def)
  have "(2::int) ^ m \<le> 2 ^ n" using m(1) by (intro power_increasing) simp_all
  then show ?thesis using m(2) by linarith
qed

lemma filter_upt_all: "\<forall>i \<in> {a ..< l}. P i \<Longrightarrow> filter P [a ..< l] = [a ..< l]"
  by simp

lemma filter_upt_split:
  assumes "a \<le> b" and "b < l" and "\<forall>i \<in> {a ..< b}. P i" and "\<not> P b"
    and "\<forall>i \<in> {Suc b ..< l}. P i = Q i"
  shows "filter P [a ..< l] = [a ..< b] @ filter Q [Suc b ..< l]"
proof -
  have "[a ..< b + (l - b)] = [a ..< b] @ [b ..< b + (l - b)]"
    using assms(1) by (rule upt_add_eq_append)
  then have "[a ..< l] = [a ..< b] @ b # [Suc b ..< l]"
    using assms(2) by (simp add: upt_conv_Cons)
  moreover have "filter P [Suc b ..< l] = filter Q [Suc b ..< l]"
    using assms(5) by (intro filter_cong) simp_all
  ultimately show ?thesis using assms(3,4) by simp
qed

lemma buckets_run:
  assumes "fresh s" and "sorted (map created_at (images s))"
    and "ages s ! backup_num s \<le> 2 ^ n"
  shows "\<exists>s'. buckets (orders n) s = Inr s' \<and> same_input s s'
           \<and> aws_removed s' = aws_removed s
                @ map (call_at s)
                    (filter (crowded n (ages s)) [Suc (backup_num s) ..< length (images s)])"
  using assms
proof (induction n arbitrary: s)
  case 0
  have "filter (crowded 0 (ages s)) [Suc (backup_num s) ..< length (images s)] = []"
    by (simp add: crowded_small)
  then show ?case by (simp add: orders_small same_input_refl)
next
  case (Suc n)
  let ?c = "backup_num s" and ?l = "length (images s)" and ?A = "ages s"
  note fr = Suc.prems(1)
  have c: "?c < ?l" and d: "backup_days_ago s = Some (?A ! ?c)"
    using fr by (simp_all add: fresh_def)
  note srt = Suc.prems(2)
  show ?case
  proof (cases "n = 0")
    case True
    have "filter (crowded (Suc 0) ?A) [Suc ?c ..< ?l] = []"
      by (simp add: crowded_small)
    then show ?thesis using True by (simp add: orders_small same_input_refl)
  next
    case False
    then have n: "1 \<le> n" by simp
    have ord: "orders (Suc n) = Suc n # orders n" using n by (rule orders_Suc)
    show ?thesis
    proof (cases "?A ! ?c > 2 ^ n")
      case low: False
      then have le: "?A ! ?c \<le> 2 ^ n" by simp
      from Suc.IH [OF Suc.prems(1) srt le] obtain s' where
        s': "buckets (orders n) s = Inr s'" "same_input s s'"
          "aws_removed s' = aws_removed s
             @ map (call_at s) (filter (crowded n ?A) [Suc ?c ..< ?l])"
        by blast
      have run: "buckets (orders (Suc n)) s = Inr s'"
        using low s'(1) by (simp add: ord buckets_fresh [OF fr])
      have "filter (crowded (Suc n) ?A) [Suc ?c ..< ?l] = filter (crowded n ?A) [Suc ?c ..< ?l]"
      proof (intro filter_cong refl)
        fix i assume "i \<in> set [Suc ?c ..< ?l]"
        then have i: "?c \<le> i" "i < ?l" by simp_all
        have "?A ! i \<le> 2 ^ n" using ages_antimono [OF srt i] le by simp
        then show "crowded (Suc n) ?A i = crowded n ?A i"
          by (simp add: crowded_Suc [OF n])
      qed
      then show ?thesis using run s'(2,3) by simp
    next
      case high: True
      from keep_step [OF fr] obtain s1 where
        s1: "keep_and_inc s = Inr (\<not> Suc ?c < ?l, s1)" "same_input s s1"
          "backup_num s1 = Suc ?c" "aws_removed s1 = aws_removed s"
          "Suc ?c < ?l \<longrightarrow> fresh s1"
        by blast
      show ?thesis
      proof (cases "Suc ?c < ?l")
        case False
        then have "buckets (orders (Suc n)) s = Inr s1"
          using high s1(1) by (simp add: ord buckets_fresh [OF fr])
        moreover have "filter (crowded (Suc n) ?A) [Suc ?c ..< ?l] = []" using False by simp
        ultimately show ?thesis using s1(2,4) by simp
      next
        case more: True
        then have k: "keep_and_inc s = Inr (False, s1)" and f1: "fresh s1"
          using s1 by simp_all
        from remove_others_run [OF f1, of "2 ^ n"] obtain b s2 where
          s2: "remove_others (2 ^ n) s1 = Inr (b, s2)" "same_input s1 s2"
            "backup_num s1 \<le> backup_num s2"
            "aws_removed s2 = aws_removed s1 @ map (call_at s1) [backup_num s1 ..< backup_num s2]"
            "\<forall>i \<in> {backup_num s1 ..< backup_num s2}. ages s1 ! i > 2 ^ n"
            "if b then backup_num s2 = length (images s1)
             else fresh s2 \<and> ages s1 ! backup_num s2 \<le> 2 ^ n"
          by blast
        let ?c2 = "backup_num s2"
        have A1: "ages s1 = ?A" and l1: "length (images s1) = ?l"
          and call1: "call_at s1 = call_at s"
          using s1(2) by (simp_all add: same_input_ages same_input_length same_input_call_at)
        have in12: "same_input s s2" using s1(2) s2(2) by (rule same_input_trans)
        have c2: "Suc ?c \<le> ?c2" using s2(3) s1(3) by simp
        have c2l: "?c2 \<le> ?l"
          using s2(6) l1 same_input_length [OF s2(2)] by (auto simp: fresh_def split: if_splits)
        have log2: "aws_removed s2 = aws_removed s @ map (call_at s) [Suc ?c ..< ?c2]"
          using s2(4) s1(3,4) call1 by simp
        have above: "\<forall>i \<in> {?c ..< ?c2}. ?A ! i > 2 ^ n"
        proof
          fix i assume i: "i \<in> {?c ..< ?c2}"
          show "?A ! i > 2 ^ n"
          proof (cases "i = ?c")
            case True then show ?thesis using high by simp
          next
            case False
            then have "i \<in> {backup_num s1 ..< ?c2}" using i s1(3) by simp
            then show ?thesis using s2(5) A1 by simp
          qed
        qed
        have doomed: "\<forall>i \<in> {Suc ?c ..< ?c2}. crowded (Suc n) ?A i"
        proof
          fix i assume i: "i \<in> {Suc ?c ..< ?c2}"
          then have "?c \<le> i - 1" "i - 1 < ?l" using c2l by auto
          then have "?A ! (i - 1) \<le> ?A ! ?c" by (rule ages_antimono [OF srt])
          then have "?A ! (i - 1) \<le> 2 ^ Suc n" using Suc.prems(3) by simp
          moreover have "?A ! i > 2 ^ n" using above i by simp
          moreover have "0 < i" using i by simp
          ultimately show "crowded (Suc n) ?A i" by (simp add: crowded_Suc [OF n])
        qed
        show ?thesis
        proof (cases b)
          case True
          then have end2: "?c2 = ?l" using s2(6) l1 by simp
          have "buckets (orders (Suc n)) s = Inr s2"
            using high k s2(1) True by (simp add: ord buckets_fresh [OF fr])
          moreover have "filter (crowded (Suc n) ?A) [Suc ?c ..< ?l] = [Suc ?c ..< ?l]"
            using doomed end2 by (intro filter_upt_all) simp
          ultimately show ?thesis using in12 log2 end2 by simp
        next
          case False
          then have f2: "fresh s2" and le2: "?A ! ?c2 \<le> 2 ^ n"
            using s2(6) A1 by simp_all
          have c2lt: "?c2 < ?l" using f2 same_input_length [OF in12] by (simp add: fresh_def)
          have srt2: "sorted (map created_at (images s2))"
            using in12 srt by (rule same_input_sorted)
          have le2': "ages s2 ! ?c2 \<le> 2 ^ n" using le2 same_input_ages [OF in12] by simp
          from Suc.IH [OF f2 srt2 le2'] obtain s' where
            s': "buckets (orders n) s2 = Inr s'" "same_input s2 s'"
              "aws_removed s' = aws_removed s2
                 @ map (call_at s2) (filter (crowded n (ages s2)) [Suc ?c2 ..< length (images s2)])"
            by blast
          have run: "buckets (orders (Suc n)) s = Inr s'"
            using high k s2(1) False s'(1) by (simp add: ord buckets_fresh [OF fr])
          have log': "aws_removed s' = aws_removed s @ map (call_at s) [Suc ?c ..< ?c2]
                 @ map (call_at s) (filter (crowded n ?A) [Suc ?c2 ..< ?l])"
            using s'(3) log2 same_input_ages [OF in12] same_input_length [OF in12]
              same_input_call_at [OF in12] by simp
          have prev: "?A ! (?c2 - 1) > 2 ^ n" using above c2 by simp
          have not2: "\<not> crowded (Suc n) ?A ?c2"
            using crowded_low [of n ?A ?c2] prev le2 by (auto simp: crowded_Suc [OF n])
          have rest: "\<forall>i \<in> {Suc ?c2 ..< ?l}. crowded (Suc n) ?A i = crowded n ?A i"
          proof
            fix i assume i: "i \<in> {Suc ?c2 ..< ?l}"
            then have "?c2 \<le> i" "i < ?l" by simp_all
            then have "?A ! i \<le> ?A ! ?c2" by (rule ages_antimono [OF srt])
            then have "?A ! i \<le> 2 ^ n" using le2 by simp
            then show "crowded (Suc n) ?A i = crowded n ?A i"
              by (simp add: crowded_Suc [OF n])
          qed
          have "filter (crowded (Suc n) ?A) [Suc ?c ..< ?l]
                  = [Suc ?c ..< ?c2] @ filter (crowded n ?A) [Suc ?c2 ..< ?l]"
            using c2 c2lt doomed not2 rest by (rule filter_upt_split)
          then show ?thesis
            using run same_input_trans [OF in12 s'(2)] log' by simp
        qed
      qed
    qed
  qed
qed

section \<open>The closed form of a run on a sorted group\<close>

lemma filter_upt_gap:
  assumes "a \<le> b" and "b \<le> l" and "\<forall>i \<in> {0 ..< a}. P i" and "\<forall>i \<in> {a ..< b}. \<not> P i"
    and "\<forall>i \<in> {b ..< l}. P i = Q i"
  shows "filter P [0 ..< l] = [0 ..< a] @ filter Q [b ..< l]"
proof -
  have "[0 ..< a + (b - a)] = [0 ..< a] @ [a ..< a + (b - a)]"
    by (rule upt_add_eq_append) simp
  moreover have "[0 ..< b + (l - b)] = [0 ..< b] @ [b ..< b + (l - b)]"
    by (rule upt_add_eq_append) simp
  ultimately have split: "[0 ..< l] = [0 ..< a] @ [a ..< b] @ [b ..< l]"
    using assms(1,2) by simp
  have "filter P [0 ..< a] = [0 ..< a]" using assms(3) by simp
  moreover have "filter P [a ..< b] = []" using assms(4) by simp
  moreover have "filter P [b ..< l] = filter Q [b ..< l]"
    using assms(5) by (intro filter_cong) simp_all
  ultimately show ?thesis by (simp add: split)
qed

lemma by_age_rule_antimono:
  assumes "sorted (map created_at (images s))" and "by_age_rule p (ages s) i"
    and "j \<le> i" and "i < length (images s)"
  shows "by_age_rule p (ages s) j"
proof -
  have "ages s ! i \<le> ages s ! j" using assms(1,3,4) by (intro ages_antimono)
  then show ?thesis using assms(2,3) by (simp add: by_age_rule_def)
qed

lemma remove_old_backups_closed_form:
  assumes "backup_num s = 0" and "aws_removed s = []"
    and "sorted (map created_at (images s))"
    and "2 \<le> MAX_ORDER p" and "MAX_ORDER p \<le> length (images s)"
  shows "\<exists>s'. remove_old_backups p s = Inr s' \<and> same_input s s'
           \<and> aws_removed s' = map (call_at s) (filter (doomed p (ages s)) [0 ..< length (images s)])"
proof -
  let ?l = "length (images s)" and ?A = "ages s" and ?m = "MAX_ORDER p"
  note srt = assms(3)
  define s0 where
    "s0 = s\<lparr>backup_days_ago := Some (today s - created_at (images s ! backup_num s))\<rparr>"
  have pos: "0 < ?l" using assms(4,5) by linarith
  have upd: "update_days_ago s = Inr s0"
    using pos assms(1) by (simp add: update_days_ago_def s0_def)
  have in0: "same_input s s0" by (simp add: same_input_def s0_def)
  have f0: "fresh s0" using pos assms(1) by (simp add: fresh_def s0_def ages_def)
  have n0: "backup_num s0 = 0" and r0: "aws_removed s0 = []"
    using assms(1,2) by (simp_all add: s0_def)
  from remove_really_old_run [OF f0 assms(4)] obtain s1 where
    s1: "remove_really_old p s0 = Inr s1" "same_input s0 s1" "fresh s1"
      "aws_removed s1 = aws_removed s0 @ map (call_at s0) [backup_num s0 ..< backup_num s1]"
      "\<forall>i \<in> {backup_num s0 ..< backup_num s1}. by_age_rule p (ages s0) i"
      "\<not> by_age_rule p (ages s0) (backup_num s1)"
    by blast
  let ?c1 = "backup_num s1"
  have in1: "same_input s s1" using in0 s1(2) by (rule same_input_trans)
  have c1: "?c1 < ?l" using s1(3) same_input_length [OF in1] by (simp add: fresh_def)
  have log1: "aws_removed s1 = map (call_at s) [0 ..< ?c1]"
    using s1(4) n0 r0 same_input_call_at [OF in0] by simp
  have taken: "\<forall>i \<in> {0 ..< ?c1}. doomed p ?A i"
    using s1(5) n0 same_input_ages [OF in0] by (simp add: doomed_def)
  have stop1: "\<not> by_age_rule p ?A ?c1"
    using s1(6) same_input_ages [OF in0] by simp
  have later: "\<not> by_age_rule p ?A i" if "?c1 \<le> i" "i < ?l" for i
    using by_age_rule_antimono [OF srt _ that] stop1 by blast
  from skip_older_run [OF s1(3), of "2 ^ ?m"] obtain b s2 where
    s2: "skip_older (2 ^ ?m) s1 = Inr (b, s2)" "same_input s1 s2"
      "?c1 \<le> backup_num s2" "aws_removed s2 = aws_removed s1"
      "\<forall>i \<in> {?c1 ..< backup_num s2}. ages s1 ! i > 2 ^ ?m"
      "if b then backup_num s2 = length (images s1)
       else fresh s2 \<and> ages s1 ! backup_num s2 \<le> 2 ^ ?m"
    by blast
  let ?c2 = "backup_num s2"
  have in2: "same_input s s2" using in1 s2(2) by (rule same_input_trans)
  have A1: "ages s1 = ?A" and l1: "length (images s1) = ?l"
    using in1 by (simp_all add: same_input_ages same_input_length)
  have skipped: "\<not> doomed p ?A i" if i: "?c1 \<le> i" "i \<le> ?c2" "i < ?l" for i
  proof (cases "i = ?c1")
    case True
    have "\<not> by_age_rule p ?A (?c1 - 1) \<Longrightarrow> \<not> crowded ?m ?A ?c1"
    proof -
      assume n: "\<not> by_age_rule p ?A (?c1 - 1)"
      have "?c1 = 0"
      proof (rule ccontr)
        assume "?c1 \<noteq> 0"
        then have "?c1 - 1 \<in> {0 ..< ?c1}" by simp
        then have "by_age_rule p (ages s0) (?c1 - 1)" using s1(5) n0 by simp
        then show False using n same_input_ages [OF in0] by simp
      qed
      then show ?thesis by (simp add: crowded_def)
    qed
    then show ?thesis using stop1 True by (auto simp: doomed_def)
  next
    case False
    then have "i - 1 \<in> {?c1 ..< ?c2}" using i by auto
    then have "?A ! (i - 1) > 2 ^ ?m" using s2(5) A1 by simp
    then have "\<not> crowded ?m ?A i" using crowded_low [of ?m ?A i] by auto
    then show ?thesis using later [OF i(1,3)] by (simp add: doomed_def)
  qed
  have start: "remove_old_backups p s = (if b then Inr s2 else buckets (orders ?m) s2)"
    using assms(5) upd s1(1) s2(1) by (simp add: remove_old_backups_def)
  show ?thesis
  proof (cases b)
    case True
    then have end2: "?c2 = ?l" using s2(6) l1 by simp
    have "filter (doomed p ?A) [0 ..< ?l] = [0 ..< ?c1] @ filter (doomed p ?A) [?l ..< ?l]"
      using c1 taken skipped end2 by (intro filter_upt_gap) auto
    then show ?thesis using start True in2 s2(4) log1 by simp
  next
    case False
    then have f2: "fresh s2" and le2: "?A ! ?c2 \<le> 2 ^ ?m" using s2(6) A1 by simp_all
    have c2: "?c2 < ?l" using f2 same_input_length [OF in2] by (simp add: fresh_def)
    have srt2: "sorted (map created_at (images s2))" using in2 srt by (rule same_input_sorted)
    have le2': "ages s2 ! ?c2 \<le> 2 ^ ?m" using le2 same_input_ages [OF in2] by simp
    from buckets_run [OF f2 srt2 le2'] obtain s' where
      s': "buckets (orders ?m) s2 = Inr s'" "same_input s2 s'"
        "aws_removed s' = aws_removed s2
           @ map (call_at s2) (filter (crowded ?m (ages s2)) [Suc ?c2 ..< length (images s2)])"
      by blast
    have log': "aws_removed s' = map (call_at s) [0 ..< ?c1]
           @ map (call_at s) (filter (crowded ?m ?A) [Suc ?c2 ..< ?l])"
      using s'(3) s2(4) log1 same_input_ages [OF in2] same_input_length [OF in2]
        same_input_call_at [OF in2] by simp
    have rest: "\<forall>i \<in> {Suc ?c2 ..< ?l}. doomed p ?A i = crowded ?m ?A i"
    proof
      fix i assume i: "i \<in> {Suc ?c2 ..< ?l}"
      then have "?c1 \<le> i" "i < ?l" "?c1 \<le> i - 1" "i - 1 < ?l" using s2(3) by auto
      then have "\<not> by_age_rule p ?A i" "\<not> by_age_rule p ?A (i - 1)"
        using later by blast+
      then show "doomed p ?A i = crowded ?m ?A i" by (simp add: doomed_def)
    qed
    have "filter (doomed p ?A) [0 ..< ?l]
            = [0 ..< ?c1] @ filter (crowded ?m ?A) [Suc ?c2 ..< ?l]"
      using s2(3) c2 taken skipped rest by (intro filter_upt_gap) auto
    then show ?thesis
      using start False s'(1) same_input_trans [OF in2 s'(2)] log' by simp
  qed
qed

lemma pos_call_at: "map pos (map (call_at s) xs) = xs"
  by (induction xs) (simp_all add: call_at_def)

lemma ages_init: "ages (BackupSet_init nm imgs td snaps) = map (\<lambda>b. td - created_at b) imgs"
  by (simp add: ages_def BackupSet_init_def)

lemma prune_run:
  assumes "sorted (map created_at imgs)" and "2 \<le> MAX_ORDER p"
  shows "\<exists>s'. prune p nm imgs td snaps = Inr s' \<and> images s' = imgs \<and> today s' = td
           \<and> removed_positions s' =
               (if length imgs < MAX_ORDER p then []
                else filter (doomed p (ages (BackupSet_init nm imgs td snaps))) [0 ..< length imgs])"
proof (cases "length imgs < MAX_ORDER p")
  case True
  then show ?thesis
    by (simp add: prune_def remove_old_backups_def BackupSet_init_def removed_positions_def)
next
  case False
  let ?s = "BackupSet_init nm imgs td snaps"
  have "backup_num ?s = 0" "aws_removed ?s = []" "sorted (map created_at (images ?s))"
    "MAX_ORDER p \<le> length (images ?s)"
    using assms(1) False by (simp_all add: BackupSet_init_def)
  from remove_old_backups_closed_form [OF this(1,2,3) assms(2) this(4)] obtain s' where
    s': "remove_old_backups p ?s = Inr s'" "same_input ?s s'"
      "aws_removed s' = map (call_at ?s) (filter (doomed p (ages ?s)) [0 ..< length (images ?s)])"
    by blast
  have "images s' = imgs" "today s' = td"
    using s'(2) by (simp_all add: same_input_def BackupSet_init_def)
  moreover have "length (images ?s) = length imgs" by (simp add: BackupSet_init_def)
  then have "removed_positions s' = filter (doomed p (ages ?s)) [0 ..< length imgs]"
    using s'(3) by (simp only: removed_positions_def pos_call_at)
  ultimately show ?thesis using s'(1) False by (simp add: prune_def)
qed

text \<open>
  The calls of the callback, written out: the identifier of the image at the position and
  the snapshots the table holds under that identifier.
\<close>

lemma call_at_init:
  "call_at (BackupSet_init nm imgs td snaps)
     = (\<lambda>i. \<lparr>pos = i, call_image_id = image_id (imgs ! i),
              call_snapshots = (case snaps (image_id (imgs ! i)) of
                                  None \<Rightarrow> [] | Some l \<Rightarrow> l)\<rparr>)"
  by (rule ext) (simp add: call_at_def snapshots_of_def BackupSet_init_def)

lemma prune_trace:
  assumes "sorted (map created_at imgs)" and "2 \<le> MAX_ORDER p"
  shows "\<exists>s'. prune p nm imgs td snaps = Inr s' \<and> images s' = imgs \<and> today s' = td
           \<and> removed_positions s' =
               (if length imgs < MAX_ORDER p then []
                else filter (doomed p (ages (BackupSet_init nm imgs td snaps))) [0 ..< length imgs])
           \<and> aws_removed s' =
               map (\<lambda>i. \<lparr>pos = i, call_image_id = image_id (imgs ! i),
                         call_snapshots = (case snaps (image_id (imgs ! i)) of
                                             None \<Rightarrow> [] | Some l \<Rightarrow> l)\<rparr>)
                 (removed_positions s')"
proof (cases "length imgs < MAX_ORDER p")
  case True
  then show ?thesis
    by (simp add: prune_def remove_old_backups_def BackupSet_init_def removed_positions_def)
next
  case False
  let ?s = "BackupSet_init nm imgs td snaps"
  have "backup_num ?s = 0" "aws_removed ?s = []" "sorted (map created_at (images ?s))"
    "MAX_ORDER p \<le> length (images ?s)"
    using assms(1) False by (simp_all add: BackupSet_init_def)
  from remove_old_backups_closed_form [OF this(1,2,3) assms(2) this(4)] obtain s' where
    s': "remove_old_backups p ?s = Inr s'" "same_input ?s s'"
      "aws_removed s' = map (call_at ?s) (filter (doomed p (ages ?s)) [0 ..< length (images ?s)])"
    by blast
  have im: "images s' = imgs" "today s' = td"
    using s'(2) by (simp_all add: same_input_def BackupSet_init_def)
  have len: "length (images ?s) = length imgs" by (simp add: BackupSet_init_def)
  have rp: "removed_positions s' = filter (doomed p (ages ?s)) [0 ..< length imgs]"
    using s'(3) len by (simp only: removed_positions_def pos_call_at)
  have "aws_removed s' = map (call_at ?s) (removed_positions s')"
    using s'(3) len rp by simp
  then have tr: "aws_removed s' =
               map (\<lambda>i. \<lparr>pos = i, call_image_id = image_id (imgs ! i),
                         call_snapshots = (case snaps (image_id (imgs ! i)) of
                                             None \<Rightarrow> [] | Some l \<Rightarrow> l)\<rparr>)
                 (removed_positions s')"
    by (simp only: call_at_init)
  have "prune p nm imgs td snaps = Inr s'" using s'(1) by (simp add: prune_def)
  then show ?thesis using im rp tr False by simp
qed

lemma id_called_iff:
  assumes "aws_removed s' =
             map (\<lambda>i. \<lparr>pos = i, call_image_id = image_id (imgs ! i), call_snapshots = f i\<rparr>) R"
    and "distinct (map image_id imgs)" and "set R \<subseteq> {0 ..< length imgs}"
    and "i < length imgs"
  shows "image_id (imgs ! i) \<in> call_image_id ` set (aws_removed s') \<longleftrightarrow> i \<in> set R"
proof
  assume "image_id (imgs ! i) \<in> call_image_id ` set (aws_removed s')"
  then obtain j where j: "j \<in> set R" "image_id (imgs ! i) = image_id (imgs ! j)"
    by (auto simp: assms(1))
  then have jl: "j < length imgs" using assms(3) by auto
  have "(map image_id imgs ! i = map image_id imgs ! j) = (i = j)"
    using assms(2,4) jl by (intro nth_eq_iff_index_eq) simp_all
  then have "i = j" using j(2) assms(4) jl by simp
  then show "i \<in> set R" using j(1) by simp
next
  assume "i \<in> set R"
  then show "image_id (imgs ! i) \<in> call_image_id ` set (aws_removed s')"
    by (force simp: assms(1))
qed

lemma called_ids_distinct:
  assumes "aws_removed s' =
             map (\<lambda>i. \<lparr>pos = i, call_image_id = image_id (imgs ! i), call_snapshots = f i\<rparr>) R"
    and "distinct (map image_id imgs)" and "set R \<subseteq> {0 ..< length imgs}"
    and "distinct R"
  shows "distinct (map call_image_id (aws_removed s'))"
proof -
  have "inj_on (\<lambda>i. image_id (imgs ! i)) (set R)"
  proof (rule inj_onI)
    fix i j assume ij: "i \<in> set R" "j \<in> set R" "image_id (imgs ! i) = image_id (imgs ! j)"
    then have l: "i < length imgs" "j < length imgs" using assms(3) by auto
    have "(map image_id imgs ! i = map image_id imgs ! j) = (i = j)"
      using assms(2) l by (intro nth_eq_iff_index_eq) simp_all
    then show "i = j" using ij(3) l by simp
  qed
  moreover have "map call_image_id (aws_removed s') = map (\<lambda>i. image_id (imgs ! i)) R"
    by (simp add: assms(1) comp_def)
  ultimately show ?thesis using assms(4) by (simp add: distinct_map)
qed

lemma filter_by_position:
  "filter P xs = map (\<lambda>i. xs ! i) (filter (\<lambda>i. P (xs ! i)) [0 ..< length xs])"
proof -
  have "filter P (map (\<lambda>i. xs ! i) [0 ..< length xs])
          = map (\<lambda>i. xs ! i) (filter (P \<circ> (\<lambda>i. xs ! i)) [0 ..< length xs])"
    by (rule filter_map)
  then show ?thesis by (simp add: map_nth comp_def)
qed

lemma survivors_by_id:
  assumes "aws_removed s' =
             map (\<lambda>i. \<lparr>pos = i, call_image_id = image_id (imgs ! i), call_snapshots = f i\<rparr>)
               (removed_positions s')"
    and "images s' = imgs"
    and "distinct (map image_id imgs)" and "set (removed_positions s') \<subseteq> {0 ..< length imgs}"
  shows "survivors s' = filter (\<lambda>b. image_id b \<notin> call_image_id ` set (aws_removed s')) imgs"
proof -
  have "filter (\<lambda>i. i \<notin> set (removed_positions s')) [0 ..< length imgs]
          = filter (\<lambda>i. image_id (imgs ! i) \<notin> call_image_id ` set (aws_removed s'))
              [0 ..< length imgs]"
    using id_called_iff [OF assms(1,3,4)] by (intro filter_cong) simp_all
  then show ?thesis
    by (simp add: survivors_def assms(2)
          filter_by_position [of "\<lambda>b. image_id b \<notin> call_image_id ` set (aws_removed s')" imgs])
qed

section \<open>Consequences of the closed form\<close>

lemma crowded_above_two: "crowded n as i \<Longrightarrow> 2 < as ! i"
proof -
  assume "crowded n as i"
  then obtain m where m: "2 \<le> m" "2 ^ (m - 1) < as ! i"
    by (auto simp: crowded_def)
  have "(2::int) ^ 1 \<le> 2 ^ (m - 1)" using m(1) by (intro power_increasing) simp_all
  then show ?thesis using m(2) by simp
qed

lemma doomed_old: "doomed p as i \<Longrightarrow> DAYS_TO_KEEP_BACKUPS p < as ! i \<or> 2 < as ! i"
  by (auto simp: doomed_def by_age_rule_def dest: crowded_above_two)

lemma crowded_in_bucket:
  assumes "sorted (map created_at (images s))" and "i < j" and "j < length (images s)"
    and "n \<in> {2 .. m}" and "ages s ! i \<le> 2 ^ n" and "2 ^ (n - 1) < ages s ! j"
  shows "crowded m (ages s) j"
proof -
  have "i \<le> j - 1" "j - 1 < length (images s)" using assms(2,3) by simp_all
  then have "ages s ! (j - 1) \<le> ages s ! i" by (rule ages_antimono [OF assms(1)])
  then have "ages s ! (j - 1) \<le> 2 ^ n" using assms(5) by simp
  then show ?thesis using assms(2,4,6) by (auto simp: crowded_def)
qed

lemma one_per_bucket:
  assumes "sorted (map created_at (images s))" and "i < j" and "j < length (images s)"
    and "n \<in> {2 .. MAX_ORDER p}"
    and "in_bucket n (ages s ! i)" and "in_bucket n (ages s ! j)"
    and "\<not> doomed p (ages s) j"
  shows "doomed p (ages s) i"
proof -
  have "crowded (MAX_ORDER p) (ages s) j"
    using crowded_in_bucket [OF assms(1,2,3,4)] assms(5,6) by (simp add: in_bucket_def)
  then have "by_age_rule p (ages s) (j - 1)" using assms(7) by (simp add: doomed_def)
  moreover have "i \<le> j - 1" "j - 1 < length (images s)" using assms(2,3) by simp_all
  ultimately have "by_age_rule p (ages s) i" using by_age_rule_antimono [OF assms(1)] by blast
  then show ?thesis by (simp add: doomed_def)
qed

lemma oldest_of_bucket:
  assumes "sorted (map created_at (images s))" and "j < i" and "i < length (images s)"
    and "n \<in> {2 .. MAX_ORDER p}" and "2 ^ n \<le> DAYS_TO_KEEP_BACKUPS p"
    and "in_bucket n (ages s ! i)" and "in_bucket n (ages s ! j)"
  shows "doomed p (ages s) i"
proof (rule ccontr)
  assume n: "\<not> doomed p (ages s) i"
  have "crowded (MAX_ORDER p) (ages s) i"
    using crowded_in_bucket [OF assms(1,2,3,4)] assms(6,7) by (simp add: in_bucket_def)
  then have "by_age_rule p (ages s) (i - 1)" using n by (simp add: doomed_def)
  then have old: "DAYS_TO_KEEP_BACKUPS p < ages s ! (i - 1)" by (simp add: by_age_rule_def)
  have "j \<le> i - 1" "i - 1 < length (images s)" using assms(2,3) by simp_all
  then have "ages s ! (i - 1) \<le> ages s ! j" by (rule ages_antimono [OF assms(1)])
  then have "ages s ! (i - 1) \<le> 2 ^ n" using assms(7) by (simp add: in_bucket_def)
  then show False using old assms(5) by linarith
qed

lemma age_at_init:
  "i < length imgs \<Longrightarrow> ages (BackupSet_init nm imgs td snaps) ! i = td - created_at (imgs ! i)"
  by (simp add: ages_init)

lemma images_init: "images (BackupSet_init nm imgs td snaps) = imgs"
  by (simp add: BackupSet_init_def)

lemma in_survivors:
  "i < length (images s) \<Longrightarrow> i \<notin> set (removed_positions s) \<Longrightarrow> images s ! i \<in> set (survivors s)"
  by (simp add: survivors_def)

lemma removed_position_doomed:
  assumes "removed_positions s' =
             (if length imgs < MAX_ORDER p then [] else filter (doomed p as) [0 ..< length imgs])"
    and "i \<in> set (removed_positions s')"
  shows "doomed p as i \<and> i < length imgs \<and> MAX_ORDER p \<le> length imgs"
  using assms by (auto split: if_splits)

lemma created_at_mono:
  assumes "sorted (map created_at imgs)" and "i \<le> j" and "j < length imgs"
  shows "created_at (imgs ! i) \<le> created_at (imgs ! j)"
proof -
  have "map created_at imgs ! i \<le> map created_at imgs ! j"
    using assms by (intro sorted_nth_mono) simp_all
  then show ?thesis using assms by simp
qed

lemma created_at_strict_mono:
  assumes "sorted (map created_at imgs)" and "distinct (map created_at imgs)"
    and "i < j" and "j < length imgs"
  shows "created_at (imgs ! i) < created_at (imgs ! j)"
proof -
  have "created_at (imgs ! i) \<le> created_at (imgs ! j)"
    using assms(1,3,4) by (intro created_at_mono) simp_all
  moreover have "(map created_at imgs ! i = map created_at imgs ! j) = (i = j)"
    using assms(2,3,4) by (intro nth_eq_iff_index_eq) simp_all
  ultimately show ?thesis using assms(3,4) by simp
qed

lemma removed_positions_increasing:
  assumes "removed_positions s' =
             (if length imgs < MAX_ORDER p then [] else filter (doomed p as) [0 ..< length imgs])"
  shows "sorted_wrt (<) (removed_positions s')"
    and "set (removed_positions s') \<subseteq> {0 ..< length imgs}"
  using assms by (auto simp: sorted_wrt_filter split: if_splits)

lemma length_le_one:
  assumes "distinct xs" and "\<forall>x \<in> set xs. \<forall>y \<in> set xs. x = y"
  shows "length xs \<le> 1"
proof (rule ccontr)
  assume "\<not> length xs \<le> 1"
  then have l: "0 < length xs" "1 < length xs" by linarith+
  then have "xs ! 0 \<in> set xs" "xs ! 1 \<in> set xs" by (simp_all only: nth_mem)
  then have "xs ! 0 = xs ! 1" using assms(2) by blast
  moreover have "(xs ! 0 = xs ! 1) = (0 = (1::nat))"
    using assms(1) l by (rule nth_eq_iff_index_eq)
  ultimately show False by simp
qed

lemma sorted_init:
  "sorted (map created_at imgs) \<Longrightarrow>
     sorted (map created_at (images (BackupSet_init nm imgs td snaps)))"
  by (simp add: images_init)

lemma increasing_tail_bound:
  assumes "sorted_wrt (<) ps" and "set ps \<subseteq> {0 ..< l}" and "j < length ps"
  shows "ps ! j + (length ps - j) \<le> l"
proof -
  have sd: "sorted ps" "distinct ps" using assms(1) by (simp_all add: strict_sorted_iff)
  have "set (drop j ps) \<subseteq> {ps ! j ..< l}"
  proof
    fix x assume "x \<in> set (drop j ps)"
    then obtain k where k: "k < length ps - j" "x = drop j ps ! k"
      by (auto simp: in_set_conv_nth)
    then have x: "x = ps ! (j + k)" and jk: "j + k < length ps" using assms(3) by simp_all
    have "ps ! j \<le> ps ! (j + k)" using sd(1) jk by (intro sorted_nth_mono) simp_all
    moreover have "ps ! (j + k) \<in> set ps" using jk by (simp only: nth_mem)
    ultimately show "x \<in> {ps ! j ..< l}" using x assms(2) by auto
  qed
  then have "card (set (drop j ps)) \<le> card {ps ! j ..< l}"
    by (intro card_mono) simp_all
  moreover have "card (set (drop j ps)) = length ps - j"
    using sd(2) by (simp add: distinct_card)
  moreover have "ps ! j \<in> set ps" using assms(3) by (simp only: nth_mem)
  then have "ps ! j < l" using assms(2) by auto
  ultimately show ?thesis by simp
qed

lemma survivors_nothing_removed:
  "removed_positions s = [] \<Longrightarrow> survivors s = images s"
  by (simp add: survivors_def map_nth)

lemma doomed_cases:
  assumes "doomed p as j"
  obtains "by_age_rule p as j"
  | m where "0 < j" "m \<in> {2 .. MAX_ORDER p}" "2 ^ (m - 1) < as ! j" "as ! (j - 1) \<le> 2 ^ m"
  using assms by (auto simp: doomed_def crowded_def)

lemma survivors_untouched_by_second_run:
  assumes srt: "sorted (map created_at imgs)" and mo: "2 \<le> MAX_ORDER p"
    and big: "MAX_ORDER p \<le> length imgs"
    and ps: "ps = filter (\<lambda>i. \<not> doomed p (ages (BackupSet_init nm imgs td snaps)) i)
                    [0 ..< length imgs]"
    and j: "j < length ps"
  shows "\<not> doomed p (ages (BackupSet_init nm (map (\<lambda>i. imgs ! i) ps) td snaps)) j"
proof
  let ?s = "BackupSet_init nm imgs td snaps"
  let ?S = "map (\<lambda>i. imgs ! i) ps"
  let ?t = "BackupSet_init nm ?S td snaps"
  let ?A = "ages ?s" and ?A' = "ages ?t"
  let ?l = "length imgs"
  assume d: "doomed p ?A' j"
  have srt0: "sorted (map created_at (images ?s))" using srt by (rule sorted_init)
  have inc: "sorted_wrt (<) ps" and sub: "set ps \<subseteq> {0 ..< ?l}"
    by (auto simp: ps sorted_wrt_filter)
  have mem: "ps ! k < ?l \<and> \<not> doomed p ?A (ps ! k)" if "k < length ps" for k
  proof -
    have "ps ! k \<in> set ps" using that by (simp only: nth_mem)
    then show ?thesis by (simp add: ps)
  qed
  have age: "?A' ! k = ?A ! (ps ! k)" if "k < length ps" for k
    using that mem [OF that] by (simp add: ages_init)
  from d show False
  proof (cases rule: doomed_cases)
    case 1
    then have old: "DAYS_TO_KEEP_BACKUPS p < ?A ! (ps ! j)" and room: "j + MAX_ORDER p \<le> length ps"
      using age [OF j] by (simp_all add: by_age_rule_def ages_init)
    have "ps ! j + (length ps - j) \<le> ?l" using inc sub j by (rule increasing_tail_bound)
    then have "ps ! j + MAX_ORDER p \<le> ?l" using room by linarith
    then have "by_age_rule p ?A (ps ! j)" using old by (simp add: by_age_rule_def ages_init)
    then show False using mem [OF j] by (simp add: doomed_def)
  next
    case (2 m)
    let ?i1 = "ps ! (j - 1)" and ?i2 = "ps ! j"
    have j1: "j - 1 < length ps" using j by simp
    have lt: "?i1 < ?i2" using inc 2(1) j by (simp add: sorted_wrt_nth_less)
    have hi: "2 ^ (m - 1) < ?A ! ?i2" using 2(3) age [OF j] by simp
    have lo: "?A ! ?i1 \<le> 2 ^ m" using 2(4) age [OF j1] by simp
    have il: "?i2 < length (images ?s)" using mem [OF j] by (simp add: images_init)
    have "?i1 \<le> ?i2" using lt by simp
    then have le: "?A ! ?i2 \<le> ?A ! ?i1" using il by (rule ages_antimono [OF srt0])
    have "in_bucket m (?A ! ?i1)" "in_bucket m (?A ! ?i2)"
      using hi lo le by (simp_all add: in_bucket_def)
    then have "doomed p ?A ?i1"
      using one_per_bucket [OF srt0 lt il 2(2)] mem [OF j] by blast
    then show False using mem [OF j1] by simp
  qed
qed

section \<open>Normal return on every list\<close>

lemma buckets_returns:
  assumes "fresh s"
  shows "\<exists>s'. buckets ns s = Inr s' \<and> same_input s s' \<and> backup_num s \<le> backup_num s'
           \<and> backup_num s' \<le> length (images s)"
  using assms
proof (induction ns arbitrary: s)
  case Nil
  then show ?case by (simp add: same_input_refl fresh_def)
next
  case (Cons n ns)
  let ?c = "backup_num s" and ?l = "length (images s)"
  note fr = Cons.prems
  have c: "?c < ?l" using fr by (simp add: fresh_def)
  show ?case
  proof (cases "ages s ! ?c > 2 ^ (n - 1)")
    case False
    from Cons.IH [OF Cons.prems] obtain s' where
      "buckets ns s = Inr s'" "same_input s s'" "?c \<le> backup_num s'" "backup_num s' \<le> ?l"
      by blast
    then show ?thesis using False by (simp add: buckets_fresh [OF fr])
  next
    case True
    from keep_step [OF fr] obtain s1 where
      s1: "keep_and_inc s = Inr (\<not> Suc ?c < ?l, s1)" "same_input s s1"
        "backup_num s1 = Suc ?c" "Suc ?c < ?l \<longrightarrow> fresh s1"
      by blast
    show ?thesis
    proof (cases "Suc ?c < ?l")
      case False
      then have "buckets (n # ns) s = Inr s1" using True s1(1) by (simp add: buckets_fresh [OF fr])
      then show ?thesis using s1(2,3) c by auto
    next
      case more: True
      then have k: "keep_and_inc s = Inr (False, s1)" and f1: "fresh s1" using s1 by simp_all
      from remove_others_run [OF f1, of "2 ^ (n - 1)"] obtain b s2 where
        s2: "remove_others (2 ^ (n - 1)) s1 = Inr (b, s2)" "same_input s1 s2"
          "backup_num s1 \<le> backup_num s2"
          "if b then backup_num s2 = length (images s1)
           else fresh s2 \<and> ages s1 ! backup_num s2 \<le> 2 ^ (n - 1)"
        by blast
      have in2: "same_input s s2" using s1(2) s2(2) by (rule same_input_trans)
      have l1: "length (images s1) = ?l" using s1(2) by (rule same_input_length)
      show ?thesis
      proof (cases b)
        case True
        then have "buckets (n # ns) s = Inr s2"
          using \<open>ages s ! ?c > 2 ^ (n - 1)\<close> k s2(1) by (simp add: buckets_fresh [OF fr])
        moreover have "backup_num s2 = ?l" using True s2(4) l1 by simp
        ultimately show ?thesis using in2 c by auto
      next
        case False
        then have f2: "fresh s2" using s2(4) by simp
        from Cons.IH [OF f2] obtain s' where
          s': "buckets ns s2 = Inr s'" "same_input s2 s'" "backup_num s2 \<le> backup_num s'"
            "backup_num s' \<le> length (images s2)"
          by blast
        have "buckets (n # ns) s = Inr s'"
          using \<open>ages s ! ?c > 2 ^ (n - 1)\<close> k s2(1) False s'(1)
          by (simp add: buckets_fresh [OF fr])
        moreover have "length (images s2) = ?l" using in2 by (rule same_input_length)
        ultimately show ?thesis
          using same_input_trans [OF in2 s'(2)] s'(3,4) s2(3) s1(3) by auto
      qed
    qed
  qed
qed

lemma remove_old_backups_returns:
  assumes "backup_num s = 0" and "2 \<le> MAX_ORDER p"
  shows "\<exists>s'. remove_old_backups p s = Inr s' \<and> images s' = images s
           \<and> backup_num s' \<le> length (images s)"
proof (cases "length (images s) < MAX_ORDER p")
  case True
  then show ?thesis using assms(1) by (simp add: remove_old_backups_def)
next
  case False
  let ?l = "length (images s)"
  define s0 where
    "s0 = s\<lparr>backup_days_ago := Some (today s - created_at (images s ! backup_num s))\<rparr>"
  have pos: "0 < ?l" using assms(2) False by linarith
  have upd: "update_days_ago s = Inr s0"
    using pos assms(1) by (simp add: update_days_ago_def s0_def)
  have in0: "same_input s s0" by (simp add: same_input_def s0_def)
  have f0: "fresh s0" using pos assms(1) by (simp add: fresh_def s0_def ages_def)
  from remove_really_old_run [OF f0 assms(2)] obtain s1 where
    s1: "remove_really_old p s0 = Inr s1" "same_input s0 s1" "fresh s1"
    by blast
  have in1: "same_input s s1" using in0 s1(2) by (rule same_input_trans)
  from skip_older_run [OF s1(3), of "2 ^ MAX_ORDER p"] obtain b s2 where
    s2: "skip_older (2 ^ MAX_ORDER p) s1 = Inr (b, s2)" "same_input s1 s2"
      "if b then backup_num s2 = length (images s1)
       else fresh s2 \<and> ages s1 ! backup_num s2 \<le> 2 ^ MAX_ORDER p"
    by blast
  have in2: "same_input s s2" using in1 s2(2) by (rule same_input_trans)
  have start: "remove_old_backups p s
                 = (if b then Inr s2 else buckets (orders (MAX_ORDER p)) s2)"
    using False upd s1(1) s2(1) by (simp add: remove_old_backups_def)
  show ?thesis
  proof (cases b)
    case True
    then have "backup_num s2 = ?l" using s2(3) same_input_length [OF in1] by simp
    then show ?thesis using start True in2 by (simp add: same_input_def)
  next
    case False
    then have f2: "fresh s2" using s2(3) by simp
    from buckets_returns [OF f2, of "orders (MAX_ORDER p)"] obtain s' where
      s': "buckets (orders (MAX_ORDER p)) s2 = Inr s'" "same_input s2 s'"
        "backup_num s' \<le> length (images s2)"
      by blast
    have "same_input s s'" using in2 s'(2) by (rule same_input_trans)
    then show ?thesis
      using start False s'(1,3) same_input_length [OF in2] by (simp add: same_input_def)
  qed
qed

section \<open>The cursor in every loop, from every state\<close>

text \<open>
  On the object as the constructor leaves it, before \<open>_update_days_ago\<close> has run, both
  steps raise: their \<open>print\<close> reads \<open>self.backup_days_ago\<close>.
\<close>

lemma step_before_update_raises:
  assumes "imgs \<noteq> []"
  shows "keep_and_inc (BackupSet_init nm imgs td snaps) = Inl AttributeError"
    and "remove_and_inc (BackupSet_init nm imgs td snaps) = Inl AttributeError"
  using assms by (simp_all add: keep_and_inc_def remove_and_inc_def BackupSet_init_def)

lemma remove_and_inc_result:
  "remove_and_inc s = Inr (b, s') \<Longrightarrow>
     backup_num s < length (images s) \<and> backup_num s' = Suc (backup_num s)
     \<and> images s' = images s \<and> length (aws_removed s') = Suc (length (aws_removed s))"
  by (auto simp: remove_and_inc_def dest!: inc_backup_num_fields split: if_splits option.splits)

lemma keep_and_inc_result:
  "keep_and_inc s = Inr (b, s') \<Longrightarrow>
     backup_num s < length (images s) \<and> backup_num s' = Suc (backup_num s)
     \<and> images s' = images s \<and> aws_removed s' = aws_removed s"
  by (auto simp: keep_and_inc_def dest!: inc_backup_num_fields split: if_splits option.splits)

lemma remove_really_old_advance:
  assumes "remove_really_old p t = Inr t'"
  shows "images t' = images t \<and> backup_num t \<le> backup_num t'
         \<and> (backup_num t' = backup_num t \<or> backup_num t' \<le> length (images t))
         \<and> length (aws_removed t') = length (aws_removed t) + (backup_num t' - backup_num t)
         \<and> ((case backup_days_ago t of
                None \<Rightarrow> False
              | Some d \<Rightarrow> d > DAYS_TO_KEEP_BACKUPS p
                  \<and> int (length (images t)) - int (backup_num t) \<ge> int (MAX_ORDER p)) \<longrightarrow>
              backup_num t < backup_num t')"
  using assms
proof (induction p t rule: remove_really_old.induct)
  case (1 p s)
  note run = "1.prems" [unfolded remove_really_old.simps [of p s]]
  obtain d where d: "backup_days_ago s = Some d"
    using run by (cases "backup_days_ago s") simp_all
  show ?case
  proof (cases "d > DAYS_TO_KEEP_BACKUPS p
                  \<and> int (length (images s)) - int (backup_num s) \<ge> int (MAX_ORDER p)")
    case False
    then have "t' = s" using run d by auto
    then show ?thesis using False d by auto
  next
    case True
    then obtain b s1 where r: "remove_and_inc s = Inr (b, s1)"
      and rest: "remove_really_old p s1 = Inr t'"
      using run d by (cases "remove_and_inc s") auto
    note ih = "1.IH" [OF d True r refl rest]
    note st = remove_and_inc_result [OF r]
    show ?thesis using ih st d True by auto
  qed
qed

lemma skip_older_advance:
  assumes "skip_older u t = Inr (b, t')"
  shows "images t' = images t \<and> backup_num t \<le> backup_num t'
         \<and> (backup_num t' = backup_num t \<or> backup_num t' \<le> length (images t))
         \<and> aws_removed t' = aws_removed t
         \<and> ((case backup_days_ago t of None \<Rightarrow> False | Some d \<Rightarrow> d > u) \<longrightarrow>
              backup_num t < backup_num t')"
  using assms
proof (induction u t rule: skip_older.induct)
  case (1 u s)
  note run = "1.prems" [unfolded skip_older.simps [of u s]]
  obtain d where d: "backup_days_ago s = Some d"
    using run by (cases "backup_days_ago s") simp_all
  show ?case
  proof (cases "d > u")
    case False
    then have "t' = s" using run d by auto
    then show ?thesis using False d by auto
  next
    case True
    then obtain b1 s1 where r: "keep_and_inc s = Inr (b1, s1)"
      using run d by (cases "keep_and_inc s") auto
    note st = keep_and_inc_result [OF r]
    show ?thesis
    proof (cases b1)
      case True
      then have "t' = s1" using run d \<open>d > u\<close> r by auto
      then show ?thesis using st d by auto
    next
      case False
      then have rest: "skip_older u s1 = Inr (b, t')" using run d \<open>d > u\<close> r by auto
      note ih = "1.IH" [OF d \<open>d > u\<close> r refl False rest]
      show ?thesis using ih st d by auto
    qed
  qed
qed

lemma remove_others_advance:
  assumes "remove_others u t = Inr (b, t')"
  shows "images t' = images t \<and> backup_num t \<le> backup_num t'
         \<and> (backup_num t' = backup_num t \<or> backup_num t' \<le> length (images t))
         \<and> length (aws_removed t') = length (aws_removed t) + (backup_num t' - backup_num t)
         \<and> ((case backup_days_ago t of None \<Rightarrow> False | Some d \<Rightarrow> d > u) \<longrightarrow>
              backup_num t < backup_num t')"
  using assms
proof (induction u t rule: remove_others.induct)
  case (1 u s)
  note run = "1.prems" [unfolded remove_others.simps [of u s]]
  obtain d where d: "backup_days_ago s = Some d"
    using run by (cases "backup_days_ago s") simp_all
  show ?case
  proof (cases "d > u")
    case False
    then have "t' = s" using run d by auto
    then show ?thesis using False d by auto
  next
    case True
    then obtain b1 s1 where r: "remove_and_inc s = Inr (b1, s1)"
      using run d by (cases "remove_and_inc s") auto
    note st = remove_and_inc_result [OF r]
    show ?thesis
    proof (cases b1)
      case True
      then have "t' = s1" using run d \<open>d > u\<close> r by auto
      then show ?thesis using st d by auto
    next
      case False
      then have rest: "remove_others u s1 = Inr (b, t')" using run d \<open>d > u\<close> r by auto
      note ih = "1.IH" [OF d \<open>d > u\<close> r refl False rest]
      show ?thesis using ih st d by auto
    qed
  qed
qed

lemma buckets_advance:
  assumes "buckets ns t = Inr t'"
  shows "images t' = images t \<and> backup_num t \<le> backup_num t'
         \<and> (backup_num t' = backup_num t \<or> backup_num t' \<le> length (images t))
         \<and> length (aws_removed t) \<le> length (aws_removed t')
         \<and> backup_num t' - backup_num t
             \<le> length (aws_removed t') - length (aws_removed t) + length ns"
  using assms
proof (induction ns arbitrary: t)
  case Nil
  then show ?case by simp
next
  case (Cons n ns)
  note run = Cons.prems [unfolded buckets.simps Let_def]
  obtain d where d: "backup_days_ago t = Some d"
    using run by (cases "backup_days_ago t") simp_all
  show ?case
  proof (cases "d > 2 ^ (n - 1)")
    case False
    then have "buckets ns t = Inr t'" using run d by auto
    from Cons.IH [OF this] show ?thesis by auto
  next
    case True
    then obtain b1 s1 where r: "keep_and_inc t = Inr (b1, s1)"
      using run d by (cases "keep_and_inc t") auto
    note st = keep_and_inc_result [OF r]
    show ?thesis
    proof (cases b1)
      case True
      then have "t' = s1" using run d \<open>d > 2 ^ (n - 1)\<close> r by auto
      then show ?thesis using st by auto
    next
      case nb: False
      then obtain b2 s2 where o: "remove_others (2 ^ (n - 1)) s1 = Inr (b2, s2)"
        using run d \<open>d > 2 ^ (n - 1)\<close> r by (cases "remove_others (2 ^ (n - 1)) s1") auto
      note adv = remove_others_advance [OF o]
      show ?thesis
      proof (cases b2)
        case True
        then have "t' = s2" using run d \<open>d > 2 ^ (n - 1)\<close> r nb o by auto
        then show ?thesis using st adv by auto
      next
        case False
        then have "buckets ns s2 = Inr t'" using run d \<open>d > 2 ^ (n - 1)\<close> r nb o by auto
        from Cons.IH [OF this] show ?thesis using st adv by auto
      qed
    qed
  qed
qed

lemma remove_really_old_iteration:
  assumes "remove_really_old p t = Inr t'" and "backup_days_ago t = Some d"
    and "d > DAYS_TO_KEEP_BACKUPS p"
    and "int (length (images t)) - int (backup_num t) \<ge> int (MAX_ORDER p)"
  shows "\<exists>b1 t1. remove_and_inc t = Inr (b1, t1) \<and> backup_num t1 = backup_num t + 1
           \<and> backup_num t1 \<le> length (images t) \<and> remove_really_old p t1 = Inr t'"
proof -
  note run = assms(1) [unfolded remove_really_old.simps [of p t]]
  obtain b1 t1 where r: "remove_and_inc t = Inr (b1, t1)"
    using run assms(2-4) by (cases "remove_and_inc t") auto
  then have "remove_really_old p t1 = Inr t'" using run assms(2-4) by simp
  then show ?thesis using r remove_and_inc_result [OF r] by simp
qed

lemma skip_older_iteration:
  assumes "skip_older u t = Inr (b, t')" and "backup_days_ago t = Some d" and "d > u"
  shows "\<exists>b1 t1. keep_and_inc t = Inr (b1, t1) \<and> backup_num t1 = backup_num t + 1
           \<and> backup_num t1 \<le> length (images t)
           \<and> (if b1 then b \<and> t' = t1 else skip_older u t1 = Inr (b, t'))"
proof -
  note run = assms(1) [unfolded skip_older.simps [of u t]]
  obtain b1 t1 where r: "keep_and_inc t = Inr (b1, t1)"
    using run assms(2,3) by (cases "keep_and_inc t") auto
  then have "if b1 then b \<and> t' = t1 else skip_older u t1 = Inr (b, t')"
    using run assms(2,3) by (cases b1) auto
  then show ?thesis using r keep_and_inc_result [OF r] by simp
qed

lemma remove_others_iteration:
  assumes "remove_others u t = Inr (b, t')" and "backup_days_ago t = Some d" and "d > u"
  shows "\<exists>b1 t1. remove_and_inc t = Inr (b1, t1) \<and> backup_num t1 = backup_num t + 1
           \<and> backup_num t1 \<le> length (images t)
           \<and> (if b1 then b \<and> t' = t1 else remove_others u t1 = Inr (b, t'))"
proof -
  note run = assms(1) [unfolded remove_others.simps [of u t]]
  obtain b1 t1 where r: "remove_and_inc t = Inr (b1, t1)"
    using run assms(2,3) by (cases "remove_and_inc t") auto
  then have "if b1 then b \<and> t' = t1 else remove_others u t1 = Inr (b, t')"
    using run assms(2,3) by (cases b1) auto
  then show ?thesis using r remove_and_inc_result [OF r] by simp
qed

lemma length_orders: "length (orders m) = m - 1"
  by (auto simp: orders_def)

section \<open>What \<open>get_images\<close> collects\<close>

lemma rfind_range: "- 1 \<le> rfind s c \<and> rfind s c < int (length s)"
  by (induction s) (auto simp: Let_def)

lemma rfind_hit: "0 \<le> rfind s c \<Longrightarrow> s ! nat (rfind s c) = c"
proof (induction s)
  case Nil
  then show ?case by simp
next
  case (Cons x xs)
  show ?case
  proof (cases "0 \<le> rfind xs c")
    case True
    then have "nat (rfind xs c + 1) = Suc (nat (rfind xs c))" by simp
    then show ?thesis using True Cons.IH by (simp add: Let_def)
  next
    case False
    then show ?thesis using Cons.prems by (auto simp: Let_def split: if_splits)
  qed
qed

lemma rfind_last: "j < length s \<Longrightarrow> s ! j = c \<Longrightarrow> int j \<le> rfind s c"
proof (induction s arbitrary: j)
  case Nil
  then show ?case by simp
next
  case (Cons x xs)
  show ?case
  proof (cases j)
    case 0
    then show ?thesis using Cons.prems rfind_range [of xs c] by (auto simp: Let_def)
  next
    case (Suc k)
    then have "int k \<le> rfind xs c" using Cons.prems by (intro Cons.IH) simp_all
    then show ?thesis using Suc by (simp add: Let_def)
  qed
qed

lemma digit_not_dash:
  assumes "isdigit s"
  shows "CHR ''-'' \<notin> set s"
proof
  assume "CHR ''-'' \<in> set s"
  then have "CHR ''-'' \<in> set ''0123456789''" using assms unfolding isdigit_def by blast
  then show False by simp
qed

lemma group_key_named_for: "group_key nm = Some key \<longleftrightarrow> named_for nm key"
proof
  assume "group_key nm = Some key"
  then have pos: "0 < rfind nm (CHR ''-'')"
    and dig: "isdigit (drop (nat (rfind nm (CHR ''-'') + 1)) nm)"
    and key: "key = take (nat (rfind nm (CHR ''-''))) nm"
    by (auto simp: group_key_def Let_def split: if_splits)
  let ?k = "nat (rfind nm (CHR ''-''))"
  have k: "?k \<in> {1 ..< length nm}" using pos rfind_range [of nm "CHR ''-''"] by auto
  have hit: "nm ! ?k = CHR ''-''" using pos by (intro rfind_hit) simp
  have "nat (rfind nm (CHR ''-'') + 1) = Suc ?k" using pos by simp
  then have "isdigit (drop (Suc ?k) nm)" using dig by simp
  then have "nm ! ?k = CHR ''-'' \<and> isdigit (drop (Suc ?k) nm) \<and> key = take ?k nm"
    using hit key by simp
  then show "named_for nm key" unfolding named_for_def using k by blast
next
  assume "named_for nm key"
  then obtain k where k: "1 \<le> k" "k < length nm" "nm ! k = CHR ''-''"
    "isdigit (drop (Suc k) nm)" "key = take k nm"
    by (auto simp: named_for_def)
  let ?r = "rfind nm (CHR ''-'')"
  have le: "int k \<le> ?r" using k(2,3) by (rule rfind_last)
  then have r0: "0 \<le> ?r" by simp
  have hit: "nm ! nat ?r = CHR ''-''" using r0 by (rule rfind_hit)
  have rl: "nat ?r < length nm" using rfind_range [of nm "CHR ''-''"] r0 by simp
  have "nat ?r = k"
  proof (rule ccontr)
    assume "nat ?r \<noteq> k"
    then have gt: "k < nat ?r" using le by simp
    then have "nm ! nat ?r = drop (Suc k) nm ! (nat ?r - Suc k)" using rl by simp
    moreover have "nat ?r - Suc k < length (drop (Suc k) nm)" using gt rl by simp
    ultimately have "CHR ''-'' \<in> set (drop (Suc k) nm)"
      using hit nth_mem [of "nat ?r - Suc k" "drop (Suc k) nm"] by simp
    then show False using digit_not_dash [OF k(4)] by simp
  qed
  then have "?r = int k" using r0 by simp
  moreover have "nat (int k + 1) = Suc k" by simp
  ultimately show "group_key nm = Some key" using k by (simp add: group_key_def Let_def)
qed

lemma get_images_from_groups:
  assumes "get_images_from strptime response acc = Inr res"
  shows "res key =
           (case map (entry strptime)
                   (filter (\<lambda>i. \<not> Public i \<and> group_key (Name i) = Some key) response) of
              [] \<Rightarrow> acc key
            | x # xs \<Rightarrow> Some (group_of acc key @ x # xs))"
  using assms
proof (induction response arbitrary: acc)
  case Nil
  then show ?case by simp
next
  case (Cons i response)
  show ?case
  proof (cases "Public i")
    case True
    then have "get_images_from strptime response acc = Inr res"
      using Cons.prems by simp
    from Cons.IH [OF this] show ?thesis using True by simp
  next
    case False
    then obtain created where d: "strptime (date_part (CreationDate i)) = Some created"
      using Cons.prems by (cases "strptime (date_part (CreationDate i))") simp_all
    have e: "entry strptime i = \<lparr>image_id = ImageId i, created_at = created\<rparr>"
      by (simp add: entry_def d)
    show ?thesis
    proof (cases "group_key (Name i)")
      case None
      then have "\<not> (0 < rfind (Name i) (CHR ''-'')
                   \<and> isdigit (drop (nat (rfind (Name i) (CHR ''-'') + 1)) (Name i)))"
        by (auto simp: group_key_def Let_def split: if_splits)
      then have "get_images_from strptime response acc = Inr res"
        using Cons.prems False d by (auto simp: Let_def)
      from Cons.IH [OF this] show ?thesis using None by simp
    next
      case (Some nm)
      then have c: "0 < rfind (Name i) (CHR ''-'')
                   \<and> isdigit (drop (nat (rfind (Name i) (CHR ''-'') + 1)) (Name i))"
        and nm: "nm = take (nat (rfind (Name i) (CHR ''-''))) (Name i)"
        by (auto simp: group_key_def Let_def split: if_splits)
      let ?acc' = "acc(nm \<mapsto> group_of acc nm @ [entry strptime i])"
      have "get_images_from strptime response ?acc' = Inr res"
        using Cons.prems False d c nm e
        by (cases "acc nm") (simp_all add: Let_def group_of_def)
      from Cons.IH [OF this, of ] have ih: "res key =
           (case map (entry strptime)
                   (filter (\<lambda>i. \<not> Public i \<and> group_key (Name i) = Some key) response) of
              [] \<Rightarrow> ?acc' key
            | x # xs \<Rightarrow> Some (group_of ?acc' key @ x # xs))" .
      show ?thesis
      proof (cases "key = nm")
        case True
        then show ?thesis using ih False Some
          by (simp add: group_of_def split: list.splits)
      next
        case ne: False
        then show ?thesis using ih False Some
          by (simp add: group_of_def split: list.splits)
      qed
    qed
  qed
qed

lemma accepted_named_for: "accepted i \<longleftrightarrow> \<not> Public i \<and> (\<exists>key. named_for (Name i) key)"
  by (auto simp: accepted_def named_for_def)

lemma prune_frame:
  assumes "sorted (map created_at imgs)" and "2 \<le> MAX_ORDER p"
    and "prune p nm imgs td snaps = Inr bs"
  shows "images bs = imgs \<and> (\<forall>c \<in> set (aws_removed bs). call_image_id c \<in> image_id ` set imgs)"
proof (cases "length imgs < MAX_ORDER p")
  case True
  then have "bs = BackupSet_init nm imgs td snaps"
    using assms(3) by (simp add: prune_def remove_old_backups_def BackupSet_init_def)
  then show ?thesis by (simp add: BackupSet_init_def)
next
  case False
  let ?s = "BackupSet_init nm imgs td snaps"
  have "backup_num ?s = 0" "aws_removed ?s = []" "sorted (map created_at (images ?s))"
    "MAX_ORDER p \<le> length (images ?s)"
    using assms(1) False by (simp_all add: BackupSet_init_def)
  from remove_old_backups_closed_form [OF this(1,2,3) assms(2) this(4)] obtain s' where
    s': "remove_old_backups p ?s = Inr s'" "same_input ?s s'"
      "aws_removed s' = map (call_at ?s) (filter (doomed p (ages ?s)) [0 ..< length (images ?s)])"
    by blast
  have bs: "bs = s'" using s'(1) assms(3) by (simp add: prune_def)
  have "call_image_id c \<in> image_id ` set imgs" if "c \<in> set (aws_removed s')" for c
  proof -
    from that obtain i where "i < length imgs" "c = call_at ?s i"
      using s'(3) by (auto simp: images_init)
    then show ?thesis by (simp add: call_at_def images_init)
  qed
  then show ?thesis using bs s'(2) by (simp add: same_input_def images_init)
qed

section \<open>What the handler does\<close>

lemma sort_key_twice: "sort_key f (sort_key f xs) = sort_key f xs"
  by (rule sort_key_id_if_sorted) simp

lemma images_of_result:
  assumes "images_of w (Some n) = Inr (imgs, w1)"
  shows "imgs = sort_key created_at (group_of (all_images w) n)
         \<and> ec_calls w1 = ec_calls w \<and> backup_sets w1 = backup_sets w
         \<and> (\<forall>k. group_of (all_images w1) k =
                  (if k = n then sort_key created_at (group_of (all_images w) k)
                   else group_of (all_images w) k))"
  using assms
  by (cases "all_images w n")
     (auto simp: images_of_def group_of_def Let_def split: if_splits)

lemma handle_instance_ignored:
  assumes "handle_instance p strftime td snaps w i = Inr w'" and "\<not> is_processed i"
  shows "w' = w"
  using assms
  by (auto simp: handle_instance_def is_processed_def Let_def split: sum.splits option.splits)

lemma handle_instance_step:
  assumes "handle_instance p strftime td snaps w i = Inr w'" and "is_processed i"
    and "2 \<le> MAX_ORDER p"
  shows "\<exists>bs created.
           backup_sets w' = backup_sets w @ [bs]
         \<and> images bs = sort_key created_at (group_of (all_images w) (resource_name i))
         \<and> (\<forall>k. group_of (all_images w') k =
                  (if k = resource_name i then sort_key created_at (group_of (all_images w) k)
                   else group_of (all_images w) k))
         \<and> ec_calls w' = ec_calls w @ created
              @ concat (map (\<lambda>c. remove_backup (call_image_id c) (call_snapshots c))
                          (aws_removed bs))
         \<and> (\<forall>x. DeregisterImage x \<notin> set created)
         \<and> (\<forall>c \<in> set (aws_removed bs). call_image_id c \<in> image_id ` set (images bs))"
proof -
  have ops: "get_tag i ''opsworks:stack'' = Inr None" using assms(2) by (simp add: is_processed_def)
  obtain nt where nt: "get_tag i ''Name'' = Inr nt"
    using assms(1) by (cases "get_tag i ''Name''") (simp_all add: handle_instance_def Let_def)
  obtain imgs w1 where io: "images_of w nt = Inr (imgs, w1)"
    using assms(1) nt ops
    by (cases "images_of w nt") (auto simp: handle_instance_def Let_def)
  let ?skip = "0 < length imgs \<and> created_at (imgs ! (length imgs - 1)) = td"
  obtain created where cr:
    "(if ?skip then Inr []
      else (case backup_instance strftime td i nt (State_Name i) of
              Inl e \<Rightarrow> Inl e | Inr c \<Rightarrow> Inr [c])) = Inr created"
    using assms(1) nt ops io
    by (cases "(if ?skip then Inr []
      else (case backup_instance strftime td i nt (State_Name i) of
              Inl e \<Rightarrow> Inl e | Inr c \<Rightarrow> Inr [c]))")
       (simp_all add: handle_instance_def Let_def)
  obtain bs where bs: "prune p nt imgs td snaps = Inr bs"
    using assms(1) nt ops io cr
    by (cases "prune p nt imgs td snaps") (simp_all add: handle_instance_def Let_def)
  have w': "w' = w1\<lparr>ec_calls := ec_calls w1 @ created
                       @ concat (map (\<lambda>c. remove_backup (call_image_id c) (call_snapshots c))
                                   (aws_removed bs)),
                    backup_sets := backup_sets w1 @ [bs]\<rparr>"
    using assms(1) nt ops io cr bs by (simp add: handle_instance_def Let_def)
  obtain n where n: "nt = Some n"
  proof (cases nt)
    case None
    then have "imgs = []" using io by (simp add: images_of_def)
    then have False using cr None by (simp add: backup_instance_def)
    then show ?thesis ..
  next
    case (Some n)
    then show ?thesis using that by simp
  qed
  have rn: "resource_name i = n" using nt n by (simp add: resource_name_def)
  note r = images_of_result [OF io [unfolded n]]
  have srt: "sorted (map created_at imgs)" using r by simp
  note fr = prune_frame [OF srt assms(3) bs]
  have noder: "DeregisterImage x \<notin> set created" for x
    using cr by (auto simp: backup_instance_def Let_def split: if_splits sum.splits option.splits prod.splits)
  show ?thesis
    using w' r fr rn noder
    by (intro exI [of _ bs] exI [of _ created]) simp
qed

lemma handle_all_run:
  assumes "handle_all p strftime td snaps w0 instances = Inr w" and "2 \<le> MAX_ORDER p"
    and "\<forall>k. sort_key created_at (group_of (all_images w0) k) = sort_key created_at (group_of cat k)"
    and "\<forall>x. DeregisterImage x \<in> set (ec_calls w0) \<longrightarrow> x \<in> image_id ` (\<Union>k. set (group_of cat k))"
  shows "map images (backup_sets w)
           = map images (backup_sets w0)
             @ map (\<lambda>i. sort_key created_at (group_of cat (resource_name i)))
                 (filter is_processed instances)
         \<and> (\<forall>x. DeregisterImage x \<in> set (ec_calls w) \<longrightarrow> x \<in> image_id ` (\<Union>k. set (group_of cat k)))"
  using assms
proof (induction instances arbitrary: w0)
  case Nil
  then show ?case by simp
next
  case (Cons i instances)
  from Cons.prems(1) obtain w1 where
    w1: "handle_instance p strftime td snaps w0 i = Inr w1"
      "handle_all p strftime td snaps w1 instances = Inr w"
    by (cases "handle_instance p strftime td snaps w0 i") simp_all
  show ?case
  proof (cases "is_processed i")
    case False
    then have "w1 = w0" using w1(1) by (rule handle_instance_ignored [rotated])
    then show ?thesis using Cons.IH [OF w1(2) Cons.prems(2)] Cons.prems(3,4) False by simp
  next
    case True
    let ?n = "resource_name i"
    from handle_instance_step [OF w1(1) True Cons.prems(2)] obtain bs created where
      st: "backup_sets w1 = backup_sets w0 @ [bs]"
        "images bs = sort_key created_at (group_of (all_images w0) ?n)"
        "\<forall>k. group_of (all_images w1) k =
               (if k = ?n then sort_key created_at (group_of (all_images w0) k)
                else group_of (all_images w0) k)"
        "ec_calls w1 = ec_calls w0 @ created
           @ concat (map (\<lambda>c. remove_backup (call_image_id c) (call_snapshots c)) (aws_removed bs))"
        "\<forall>x. DeregisterImage x \<notin> set created"
        "\<forall>c \<in> set (aws_removed bs). call_image_id c \<in> image_id ` set (images bs)"
      by blast
    have img: "images bs = sort_key created_at (group_of cat ?n)"
      using st(2) Cons.prems(3) by simp
    have inv1: "\<forall>k. sort_key created_at (group_of (all_images w1) k)
                  = sort_key created_at (group_of cat k)"
      using st(3) Cons.prems(3) by (simp add: sort_key_twice)
    have ids1: "\<forall>x. DeregisterImage x \<in> set (ec_calls w1) \<longrightarrow>
                  x \<in> image_id ` (\<Union>k. set (group_of cat k))"
    proof (intro allI impI)
      fix x assume x: "DeregisterImage x \<in> set (ec_calls w1)"
      show "x \<in> image_id ` (\<Union>k. set (group_of cat k))"
      proof (cases "DeregisterImage x \<in> set (ec_calls w0)")
        case True
        then show ?thesis using Cons.prems(4) by blast
      next
        case False
        then obtain c where c: "c \<in> set (aws_removed bs)"
          "DeregisterImage x \<in> set (remove_backup (call_image_id c) (call_snapshots c))"
          using x st(4,5) by auto
        then have "x = call_image_id c" by (auto simp: remove_backup_def)
        then have "x \<in> image_id ` set (images bs)" using c(1) st(6) by blast
        then have "x \<in> image_id ` set (group_of cat ?n)" using img by simp
        then show ?thesis by blast
      qed
    qed
    from Cons.IH [OF w1(2) Cons.prems(2) inv1 ids1] show ?thesis
      using st(1) img True by simp
  qed
qed

lemma group_of_catalog:
  assumes "get_images strptime response = Inr cat"
  shows "group_of cat key
           = map (entry strptime) (filter (\<lambda>i. \<not> Public i \<and> named_for (Name i) key) response)"
  using get_images_from_groups [OF assms [unfolded get_images_def], of key]
  by (simp add: group_key_named_for group_of_def split: list.splits)

lemma catalog_members:
  assumes "get_images strptime response = Inr cat"
  shows "(\<Union>key. set (group_of cat key)) = entry strptime ` {i \<in> set response. accepted i}"
  by (auto simp: group_of_catalog [OF assms] accepted_named_for)

section \<open>The properties of the retention engine\<close>

lemmas engine_defs = prune_def BackupSet_init_def remove_old_backups_def update_days_ago_def
  remove_and_inc_def keep_and_inc_def inc_backup_num_def call_at_def orders_def
  remove_really_old.simps skip_older.simps remove_others.simps buckets.simps(2)

lemma age_of_aged: "td - (td - a) = (a::int)"
  by simp

text \<open>
  C2. With \<open>MAX_ORDER = 6\<close> and \<open>DAYS_TO_KEEP_BACKUPS = 365\<close>, on the twelve images of
  ages 400, 200, 80, 40, 20, 10, 5, 4, 3, 2, 1, 0 (oldest first) the run returns normally
  and calls the deletion callback twice: first on the identifier of the image of age 400
  (position 0) with the snapshots of that identifier, then on the identifier of the image
  of age 3 (position 8) with the snapshots of that identifier. The images that are left
  are those of ages 200, 80, 40, 20, 10, 5, 4, 2, 1, 0, with their identifiers. This holds
  for every day \<open>td\<close>, all identifiers and every snapshot table.
\<close>

theorem scenario_twelve_backups:
  "\<exists>s'. prune shipped nm (aged ids td [400, 200, 80, 40, 20, 10, 5, 4, 3, 2, 1, 0]) td snaps
            = Inr s'
     \<and> images s' = aged ids td [400, 200, 80, 40, 20, 10, 5, 4, 3, 2, 1, 0]
     \<and> aws_removed s' =
         [\<lparr>pos = 0, call_image_id = ids 0,
           call_snapshots = (case snaps (ids 0) of None \<Rightarrow> [] | Some l \<Rightarrow> l)\<rparr>,
          \<lparr>pos = 8, call_image_id = ids 8,
           call_snapshots = (case snaps (ids 8) of None \<Rightarrow> [] | Some l \<Rightarrow> l)\<rparr>]
     \<and> removed_positions s' = [0, 8]
     \<and> map (\<lambda>i. td - created_at (images s' ! i)) (removed_positions s') = [400, 3]
     \<and> map (\<lambda>b. td - created_at b) (survivors s') = [200, 80, 40, 20, 10, 5, 4, 2, 1, 0]
     \<and> map image_id (survivors s') = map ids [1, 2, 3, 4, 5, 6, 7, 9, 10, 11]"
  apply (simp add: engine_defs shipped_def aged_def removed_positions_def survivors_def Let_def
      age_of_aged snapshots_of_def)
  apply (simp add: eval_nat_numeral)
  done

text \<open>
  C3. A group with fewer than \<open>MAX_ORDER\<close> images is left as it is: the run returns
  normally, the deletion callback is never called and every image survives.
\<close>

theorem small_group_untouched:
  "length imgs < MAX_ORDER p \<Longrightarrow>
     \<exists>s'. prune p nm imgs td snaps = Inr s' \<and> aws_removed s' = [] \<and> survivors s' = imgs"
  by (simp add: prune_def remove_old_backups_def BackupSet_init_def survivors_def
        removed_positions_def map_nth)

theorem small_group_untouched_witness:
  "length (aged (\<lambda>i. ''ami'') 100 [500, 400, 4, 3, 3]) < MAX_ORDER shipped
   \<and> (\<exists>s'. prune shipped None (aged (\<lambda>i. ''ami'') 100 [500, 400, 4, 3, 3]) 100 Map.empty = Inr s'
          \<and> aws_removed s' = []
          \<and> survivors s' = aged (\<lambda>i. ''ami'') 100 [500, 400, 4, 3, 3])"
proof -
  have small: "length (aged (\<lambda>i. ''ami'') 100 [500, 400, 4, 3, 3]) < MAX_ORDER shipped"
    by (simp add: aged_def shipped_def)
  from small_group_untouched [OF small] small show ?thesis
    by blast
qed

text \<open>
  C6, as the code has it. On a group sorted by creation date, under a policy with
  \<open>MAX_ORDER\<close> at least 2 and \<open>DAYS_TO_KEEP_BACKUPS\<close> at least 2 (the shipped 6 and
  365 are such a policy), the run returns normally; every call of the deletion callback
  is on the identifier and the snapshots of an image of the list whose age is more than
  2 days; no image whose age is at most 2 days is at a position the callback was called
  on, each of them is among the survivors, and, when the identifiers of the group are
  all different, its identifier is not one the callback has received.
\<close>

theorem recent_tail_survives:
  assumes "sorted (map created_at imgs)" and "2 \<le> MAX_ORDER p"
    and "2 \<le> DAYS_TO_KEEP_BACKUPS p"
  shows "\<exists>s'. prune p nm imgs td snaps = Inr s'
           \<and> aws_removed s' =
               map (\<lambda>i. \<lparr>pos = i, call_image_id = image_id (imgs ! i),
                         call_snapshots = (case snaps (image_id (imgs ! i)) of
                                             None \<Rightarrow> [] | Some l \<Rightarrow> l)\<rparr>)
                 (removed_positions s')
           \<and> (\<forall>i \<in> set (removed_positions s').
                  i < length imgs \<and> 2 < td - created_at (imgs ! i))
           \<and> (\<forall>i < length imgs. td - created_at (imgs ! i) \<le> 2 \<longrightarrow>
                  i \<notin> set (removed_positions s') \<and> imgs ! i \<in> set (survivors s')
                  \<and> (distinct (map image_id imgs) \<longrightarrow>
                       image_id (imgs ! i) \<notin> call_image_id ` set (aws_removed s')))"
proof -
  let ?s = "BackupSet_init nm imgs td snaps"
  from prune_trace [OF assms(1,2)] obtain s' where
    s': "prune p nm imgs td snaps = Inr s'" "images s' = imgs"
      "removed_positions s' =
         (if length imgs < MAX_ORDER p then []
          else filter (doomed p (ages ?s)) [0 ..< length imgs])"
      "aws_removed s' =
         map (\<lambda>i. \<lparr>pos = i, call_image_id = image_id (imgs ! i),
                   call_snapshots = (case snaps (image_id (imgs ! i)) of
                                       None \<Rightarrow> [] | Some l \<Rightarrow> l)\<rparr>)
           (removed_positions s')"
    by blast
  note inc = removed_positions_increasing [OF s'(3)]
  have old: "i < length imgs \<and> 2 < td - created_at (imgs ! i)"
    if "i \<in> set (removed_positions s')" for i
  proof -
    from removed_position_doomed [OF s'(3) that]
    have d: "doomed p (ages ?s) i" and l: "i < length imgs" by simp_all
    from d have "DAYS_TO_KEEP_BACKUPS p < ages ?s ! i \<or> 2 < ages ?s ! i" by (rule doomed_old)
    then show ?thesis using l assms(3) by (auto simp: age_at_init)
  qed
  have young: "i \<notin> set (removed_positions s') \<and> imgs ! i \<in> set (survivors s')
               \<and> (distinct (map image_id imgs) \<longrightarrow>
                    image_id (imgs ! i) \<notin> call_image_id ` set (aws_removed s'))"
    if i: "i < length imgs" "td - created_at (imgs ! i) \<le> 2" for i
  proof -
    have n: "i \<notin> set (removed_positions s')" using old [of i] i(2) by auto
    then have "imgs ! i \<in> set (survivors s')" using in_survivors [of i s'] i(1) s'(2) by simp
    moreover have "image_id (imgs ! i) \<notin> call_image_id ` set (aws_removed s')"
      if "distinct (map image_id imgs)"
      using id_called_iff [OF s'(4) that inc(2) i(1)] n by simp
    ultimately show ?thesis using n by blast
  qed
  show ?thesis
    apply (rule exI [of _ s'])
    apply (rule conjI [OF s'(1)])
    apply (rule conjI [OF s'(4)])
    apply (rule conjI)
     apply (rule ballI, erule old)
    apply (intro allI impI)
    apply (erule (1) young)
    done
qed

theorem recent_tail_survives_witness:
  "sorted (map created_at (aged ami_id 50 [9, 3, 3, 2, 2, 1, 0]))
   \<and> 2 \<le> MAX_ORDER shipped \<and> 2 \<le> DAYS_TO_KEEP_BACKUPS shipped
   \<and> distinct (map image_id (aged ami_id 50 [9, 3, 3, 2, 2, 1, 0]))
   \<and> 3 < length (aged ami_id 50 [9, 3, 3, 2, 2, 1, 0])
   \<and> 50 - created_at (aged ami_id 50 [9, 3, 3, 2, 2, 1, 0] ! 3) \<le> 2
   \<and> image_id (aged ami_id 50 [9, 3, 3, 2, 2, 1, 0] ! 3) = ''ami-d''
   \<and> (\<exists>s'. prune shipped None (aged ami_id 50 [9, 3, 3, 2, 2, 1, 0]) 50 Map.empty = Inr s'
          \<and> aws_removed s' = [\<lparr>pos = 2, call_image_id = ''ami-c'', call_snapshots = []\<rparr>]
          \<and> 2 < 50 - created_at (aged ami_id 50 [9, 3, 3, 2, 2, 1, 0] ! 2)
          \<and> 3 \<notin> set (removed_positions s')
          \<and> aged ami_id 50 [9, 3, 3, 2, 2, 1, 0] ! 3 \<in> set (survivors s')
          \<and> ''ami-d'' \<notin> call_image_id ` set (aws_removed s'))"
proof -
  let ?g = "aged ami_id 50 [9, 3, 3, 2, 2, 1, 0]"
  have h: "sorted (map created_at ?g)" "2 \<le> MAX_ORDER shipped"
    "2 \<le> DAYS_TO_KEEP_BACKUPS shipped"
    by (simp_all add: aged_def shipped_def)
  have d: "distinct (map image_id ?g)" by (simp add: aged_def ami_id_def)
  have y: "3 < length ?g" "50 - created_at (?g ! 3) \<le> 2" "image_id (?g ! 3) = ''ami-d''"
    by (simp_all add: aged_def ami_id_def)
  have run: "\<exists>s'. prune shipped None ?g 50 Map.empty = Inr s'
               \<and> aws_removed s' = [\<lparr>pos = 2, call_image_id = ''ami-c'', call_snapshots = []\<rparr>]"
    by (simp add: engine_defs shipped_def aged_def ami_id_def snapshots_of_def Let_def)
  from recent_tail_survives [OF h, of None 50 Map.empty] obtain s' where
    s': "prune shipped None ?g 50 Map.empty = Inr s'"
      "\<forall>i \<in> set (removed_positions s'). i < length ?g \<and> 2 < 50 - created_at (?g ! i)"
      "\<forall>i < length ?g. 50 - created_at (?g ! i) \<le> 2 \<longrightarrow>
          i \<notin> set (removed_positions s') \<and> ?g ! i \<in> set (survivors s')
          \<and> (distinct (map image_id ?g) \<longrightarrow>
               image_id (?g ! i) \<notin> call_image_id ` set (aws_removed s'))"
    by blast
  from run s'(1) have tr:
    "aws_removed s' = [\<lparr>pos = 2, call_image_id = ''ami-c'', call_snapshots = []\<rparr>]"
    by auto
  then have "2 \<in> set (removed_positions s')" by (simp add: removed_positions_def)
  then have o: "2 < 50 - created_at (?g ! 2)" using s'(2) by blast
  from s'(3) y(1,2) d have
    "3 \<notin> set (removed_positions s') \<and> ?g ! 3 \<in> set (survivors s')
     \<and> image_id (?g ! 3) \<notin> call_image_id ` set (aws_removed s')"
    by blast
  then have k: "3 \<notin> set (removed_positions s')" "?g ! 3 \<in> set (survivors s')"
    "''ami-d'' \<notin> call_image_id ` set (aws_removed s')"
    using y(3) by simp_all
  show ?thesis
    apply (intro conjI)
           apply (rule h(1))
          apply (rule h(2))
         apply (rule h(3))
        apply (rule d)
       apply (rule y(1))
      apply (rule y(2))
     apply (rule y(3))
    apply (rule exI [of _ s'])
    apply (intro conjI)
         apply (rule s'(1))
        apply (rule tr)
       apply (rule o)
      apply (rule k(1))
     apply (rule k(2))
    apply (rule k(3))
    done
qed

text \<open>
  C6 as stated, for every retention policy, fails when \<open>DAYS_TO_KEEP_BACKUPS\<close> is below
  2: with \<open>MAX_ORDER = 2\<close> and \<open>DAYS_TO_KEEP_BACKUPS = 1\<close>, on the ages 2, 1, 0 the first
  loop passes the identifier of the image of age 2 to the deletion callback.
\<close>

theorem recent_tail_removed_counterexample:
  "deletion_calls (prune \<lparr>MAX_ORDER = 2, DAYS_TO_KEEP_BACKUPS = 1\<rparr> None
       (aged ami_id 50 [2, 1, 0]) 50 Map.empty)
     = Inr [\<lparr>pos = 0, call_image_id = ''ami-a'', call_snapshots = []\<rparr>]
   \<and> image_id (aged ami_id 50 [2, 1, 0] ! 0) = ''ami-a''
   \<and> 50 - created_at (aged ami_id 50 [2, 1, 0] ! 0) = 2
   \<and> removed_ages (prune \<lparr>MAX_ORDER = 2, DAYS_TO_KEEP_BACKUPS = 1\<rparr> None
       (aged ami_id 50 [2, 1, 0]) 50 Map.empty) = Inr [2]"
  by (simp add: engine_defs aged_def ami_id_def snapshots_of_def deletion_calls_def
        removed_ages_def removed_positions_def Let_def)

text \<open>
  C8, as the code has it. On a group sorted by creation date, under a policy with
  \<open>MAX_ORDER\<close> at least 2, the run returns normally; the deletion callback is called on
  strictly increasing positions of the list (the oldest first), each call on the
  identifier and the snapshots of the image at its position, so that no identifier is
  passed twice when the identifiers of the group are all different; and the ages of the
  images it is called on never increase from one call to the next. They strictly
  decrease when no two images of the group have the same creation date.
\<close>

theorem deletions_oldest_first:
  assumes "sorted (map created_at imgs)" and "2 \<le> MAX_ORDER p"
  shows "\<exists>s'. prune p nm imgs td snaps = Inr s'
           \<and> aws_removed s' =
               map (\<lambda>i. \<lparr>pos = i, call_image_id = image_id (imgs ! i),
                         call_snapshots = (case snaps (image_id (imgs ! i)) of
                                             None \<Rightarrow> [] | Some l \<Rightarrow> l)\<rparr>)
                 (removed_positions s')
           \<and> set (removed_positions s') \<subseteq> {0 ..< length imgs}
           \<and> sorted_wrt (<) (removed_positions s')
           \<and> sorted_wrt (\<ge>) (map (\<lambda>i. td - created_at (imgs ! i)) (removed_positions s'))
           \<and> (distinct (map image_id imgs) \<longrightarrow>
                distinct (map call_image_id (aws_removed s')))
           \<and> (distinct (map created_at imgs) \<longrightarrow>
                sorted_wrt (>) (map (\<lambda>i. td - created_at (imgs ! i)) (removed_positions s')))"
proof -
  from prune_trace [OF assms(1,2)] obtain s' where
    s': "prune p nm imgs td snaps = Inr s'"
      "removed_positions s' =
         (if length imgs < MAX_ORDER p then []
          else filter (doomed p (ages (BackupSet_init nm imgs td snaps))) [0 ..< length imgs])"
      "aws_removed s' =
         map (\<lambda>i. \<lparr>pos = i, call_image_id = image_id (imgs ! i),
                   call_snapshots = (case snaps (image_id (imgs ! i)) of
                                       None \<Rightarrow> [] | Some l \<Rightarrow> l)\<rparr>)
           (removed_positions s')"
    by blast
  let ?r = "removed_positions s'"
  note inc = removed_positions_increasing [OF s'(2)]
  have weak: "sorted_wrt (\<lambda>i j. td - created_at (imgs ! i) \<ge> td - created_at (imgs ! j)) ?r"
  proof (rule sorted_wrt_mono_rel [OF _ inc(1)])
    fix i j assume "i \<in> set ?r" "j \<in> set ?r" "i < j"
    then have "i \<le> j" "j < length imgs" using inc(2) by auto
    then have "created_at (imgs ! i) \<le> created_at (imgs ! j)"
      by (rule created_at_mono [OF assms(1)])
    then show "td - created_at (imgs ! i) \<ge> td - created_at (imgs ! j)" by simp
  qed
  have strict: "sorted_wrt (\<lambda>i j. td - created_at (imgs ! i) > td - created_at (imgs ! j)) ?r"
    if d: "distinct (map created_at imgs)"
  proof (rule sorted_wrt_mono_rel [OF _ inc(1)])
    fix i j assume "i \<in> set ?r" "j \<in> set ?r" "i < j"
    then have "i < j" "j < length imgs" using inc(2) by auto
    then have "created_at (imgs ! i) < created_at (imgs ! j)"
      by (rule created_at_strict_mono [OF assms(1) d])
    then show "td - created_at (imgs ! i) > td - created_at (imgs ! j)" by simp
  qed
  have "distinct ?r" using inc(1) by (simp add: strict_sorted_iff)
  then have once: "distinct (map call_image_id (aws_removed s'))"
    if "distinct (map image_id imgs)"
    using called_ids_distinct [OF s'(3) that inc(2)] by simp
  have w: "sorted_wrt (\<ge>) (map (\<lambda>i. td - created_at (imgs ! i)) ?r)"
    using weak by (simp add: sorted_wrt_map)
  have st: "sorted_wrt (>) (map (\<lambda>i. td - created_at (imgs ! i)) ?r)"
    if "distinct (map created_at imgs)"
    using strict [OF that] by (simp add: sorted_wrt_map)
  show ?thesis
    apply (rule exI [of _ s'])
    apply (rule conjI [OF s'(1)])
    apply (rule conjI [OF s'(3)])
    apply (rule conjI [OF inc(2)])
    apply (rule conjI [OF inc(1)])
    apply (rule conjI [OF w])
    apply (rule conjI)
     apply (rule impI, erule once)
    apply (rule impI, erule st)
    done
qed

theorem deletions_oldest_first_witness:
  "sorted (map created_at (aged ami_id 50 [400, 390, 7, 6, 5, 3, 1, 0]))
   \<and> 2 \<le> MAX_ORDER shipped
   \<and> distinct (map created_at (aged ami_id 50 [400, 390, 7, 6, 5, 3, 1, 0]))
   \<and> distinct (map image_id (aged ami_id 50 [400, 390, 7, 6, 5, 3, 1, 0]))
   \<and> (\<exists>s'. prune shipped None (aged ami_id 50 [400, 390, 7, 6, 5, 3, 1, 0]) 50 Map.empty
             = Inr s'
          \<and> map call_image_id (aws_removed s') = [''ami-a'', ''ami-b'', ''ami-d'', ''ami-e'']
          \<and> sorted_wrt (<) (removed_positions s')
          \<and> distinct (map call_image_id (aws_removed s'))
          \<and> sorted_wrt (>) (map (\<lambda>i. 50 - created_at (aged ami_id 50
                 [400, 390, 7, 6, 5, 3, 1, 0] ! i)) (removed_positions s')))"
proof -
  let ?g = "aged ami_id 50 [400, 390, 7, 6, 5, 3, 1, 0]"
  have h: "sorted (map created_at ?g)" "2 \<le> MAX_ORDER shipped"
    and d: "distinct (map created_at ?g)"
    and e: "distinct (map image_id ?g)"
    by (simp_all add: aged_def shipped_def ami_id_def)
  have run: "\<exists>s'. prune shipped None ?g 50 Map.empty = Inr s'
               \<and> map call_image_id (aws_removed s') = [''ami-a'', ''ami-b'', ''ami-d'', ''ami-e'']"
    by (simp add: engine_defs shipped_def aged_def ami_id_def snapshots_of_def Let_def)
  from deletions_oldest_first [OF h, of None 50 Map.empty] d e obtain s' where
    s': "prune shipped None ?g 50 Map.empty = Inr s'"
      "sorted_wrt (<) (removed_positions s')"
      "distinct (map call_image_id (aws_removed s'))"
      "sorted_wrt (>) (map (\<lambda>i. 50 - created_at (?g ! i)) (removed_positions s'))"
    by blast
  from run s'(1) have tr:
    "map call_image_id (aws_removed s') = [''ami-a'', ''ami-b'', ''ami-d'', ''ami-e'']"
    by auto
  show ?thesis
    apply (intro conjI)
        apply (rule h(1))
       apply (rule h(2))
      apply (rule d)
     apply (rule e)
    apply (rule exI [of _ s'])
    apply (intro conjI)
        apply (rule s'(1))
       apply (rule tr)
      apply (rule s'(2))
     apply (rule s'(3))
    apply (rule s'(4))
    done
qed

text \<open>
  C8 as stated fails on equal creation dates, which a group sorted non-decreasing may
  hold: with the shipped policy, on the ages 3, 3, 3, 0, 0, 0 the callback is called on
  the identifiers of two images of the same age 3.
\<close>

theorem deletions_equal_ages_counterexample:
  "deletion_calls (prune shipped None (aged ami_id 50 [3, 3, 3, 0, 0, 0]) 50 Map.empty)
     = Inr [\<lparr>pos = 1, call_image_id = ''ami-b'', call_snapshots = []\<rparr>,
            \<lparr>pos = 2, call_image_id = ''ami-c'', call_snapshots = []\<rparr>]
   \<and> map image_id (aged ami_id 50 [3, 3, 3, 0, 0, 0]) ! 1 = ''ami-b''
   \<and> map image_id (aged ami_id 50 [3, 3, 3, 0, 0, 0]) ! 2 = ''ami-c''
   \<and> 50 - created_at (aged ami_id 50 [3, 3, 3, 0, 0, 0] ! 1) = 3
   \<and> 50 - created_at (aged ami_id 50 [3, 3, 3, 0, 0, 0] ! 2) = 3
   \<and> removed_ages (prune shipped None (aged ami_id 50 [3, 3, 3, 0, 0, 0]) 50 Map.empty)
       = Inr [3, 3]"
  by (simp add: engine_defs shipped_def aged_def ami_id_def snapshots_of_def deletion_calls_def
        removed_ages_def removed_positions_def Let_def)

text \<open>
  C1, as the code has it. On a group sorted by creation date that holds at least
  \<open>MAX_ORDER\<close> images, under a policy with \<open>MAX_ORDER\<close> at least 2, the run returns
  normally, every call of the deletion callback is on the identifier and the snapshots
  of the image at its position, the survivors are the images of the input whose
  identifier the callback has not received (when the identifiers of the group are all
  different) and, for every \<open>n\<close> from 2 to \<open>MAX_ORDER\<close>, at most one of the survivors
  has its age in the bucket of order \<open>n\<close>. When \<open>DAYS_TO_KEEP_BACKUPS\<close> is at least
  \<open>2 ^ n\<close> (the shipped 365 is, for every \<open>n\<close> up to 6), a survivor of that bucket is
  the oldest member of the bucket in the input: no earlier position of the list has its
  age there. A group of fewer than \<open>MAX_ORDER\<close> images is not thinned at all.
\<close>

theorem one_survivor_per_bucket:
  assumes "sorted (map created_at imgs)" and "2 \<le> MAX_ORDER p"
    and "MAX_ORDER p \<le> length imgs" and "n \<in> {2 .. MAX_ORDER p}"
  shows "\<exists>s'. prune p nm imgs td snaps = Inr s' \<and> images s' = imgs
           \<and> aws_removed s' =
               map (\<lambda>i. \<lparr>pos = i, call_image_id = image_id (imgs ! i),
                         call_snapshots = (case snaps (image_id (imgs ! i)) of
                                             None \<Rightarrow> [] | Some l \<Rightarrow> l)\<rparr>)
                 (removed_positions s')
           \<and> (distinct (map image_id imgs) \<longrightarrow>
                survivors s'
                  = filter (\<lambda>b. image_id b \<notin> call_image_id ` set (aws_removed s')) imgs)
           \<and> length (filter (\<lambda>b. in_bucket n (td - created_at b)) (survivors s')) \<le> 1
           \<and> (2 ^ n \<le> DAYS_TO_KEEP_BACKUPS p \<longrightarrow>
                (\<forall>i < length imgs.
                    i \<notin> set (removed_positions s') \<and> in_bucket n (td - created_at (imgs ! i)) \<longrightarrow>
                    (\<forall>j < i. \<not> in_bucket n (td - created_at (imgs ! j)))))"
proof -
  let ?s = "BackupSet_init nm imgs td snaps"
  let ?l = "length imgs"
  let ?B = "\<lambda>i. in_bucket n (td - created_at (imgs ! i))"
  have srt: "sorted (map created_at (images ?s))" using assms(1) by (rule sorted_init)
  from prune_trace [OF assms(1,2), of nm td snaps] assms(3) obtain s' where
    s': "prune p nm imgs td snaps = Inr s'" "images s' = imgs"
      "removed_positions s' = filter (doomed p (ages ?s)) [0 ..< ?l]"
      "aws_removed s' =
         map (\<lambda>i. \<lparr>pos = i, call_image_id = image_id (imgs ! i),
                   call_snapshots = (case snaps (image_id (imgs ! i)) of
                                       None \<Rightarrow> [] | Some l \<Rightarrow> l)\<rparr>)
           (removed_positions s')"
    by auto
  have range: "set (removed_positions s') \<subseteq> {0 ..< ?l}" by (auto simp: s'(3))
  have byid: "survivors s'
                = filter (\<lambda>b. image_id b \<notin> call_image_id ` set (aws_removed s')) imgs"
    if "distinct (map image_id imgs)"
    using survivors_by_id [OF s'(4,2) that range] .
  have gone: "i \<in> set (removed_positions s') \<longleftrightarrow> doomed p (ages ?s) i" if "i < ?l" for i
    using that by (simp add: s'(3))
  have bucket: "in_bucket n (ages ?s ! i) \<longleftrightarrow> ?B i" if "i < ?l" for i
    using that by (simp add: age_at_init)
  let ?G = "filter (\<lambda>i. i \<notin> set (removed_positions s') \<and> ?B i) [0 ..< ?l]"
  have same: "x = y" if x: "x \<in> set ?G" and y: "y \<in> set ?G" for x y
  proof (rule ccontr)
    assume ne: "x \<noteq> y"
    have clash: False
      if "i < j" "j < ?l" "?B i" "?B j" "\<not> doomed p (ages ?s) i" "\<not> doomed p (ages ?s) j"
      for i j
    proof -
      have "i < ?l" using that(1,2) by simp
      then have "doomed p (ages ?s) i"
        using one_per_bucket [OF srt that(1) _ assms(4)] that(2,3,4,6)
        by (simp add: bucket images_init)
      then show False using that(5) by simp
    qed
    have "x < ?l" "y < ?l" "?B x" "?B y" "\<not> doomed p (ages ?s) x" "\<not> doomed p (ages ?s) y"
      using x y gone by auto
    then show False using clash [of x y] clash [of y x] ne by (cases "x < y") auto
  qed
  have "length ?G \<le> 1" using same by (intro length_le_one) auto
  moreover have "filter (\<lambda>b. in_bucket n (td - created_at b)) (survivors s') = map (\<lambda>i. imgs ! i) ?G"
    by (simp add: survivors_def s'(2) filter_map comp_def)
  ultimately have one: "length (filter (\<lambda>b. in_bucket n (td - created_at b)) (survivors s')) \<le> 1"
    by simp
  have first: "\<forall>i < ?l. i \<notin> set (removed_positions s') \<and> ?B i \<longrightarrow> (\<forall>j < i. \<not> ?B j)"
    if big: "2 ^ n \<le> DAYS_TO_KEEP_BACKUPS p"
  proof (intro allI impI notI)
    fix i j assume i: "i < ?l" "i \<notin> set (removed_positions s') \<and> ?B i" and j: "j < i" "?B j"
    have "j < ?l" using i(1) j(1) by simp
    then have "doomed p (ages ?s) i"
      using oldest_of_bucket [OF srt j(1) _ assms(4) big] i j(2)
      by (simp add: bucket images_init)
    then show False using i gone by simp
  qed
  show ?thesis
    apply (rule exI [of _ s'])
    apply (rule conjI [OF s'(1)])
    apply (rule conjI [OF s'(2)])
    apply (rule conjI [OF s'(4)])
    apply (rule conjI)
     apply (rule impI, erule byid)
    apply (rule conjI [OF one])
    apply (rule impI, erule first)
    done
qed

theorem one_survivor_per_bucket_witness:
  "sorted (map created_at (aged ami_id 50 [7, 4, 4, 3, 3, 2, 0]))
   \<and> 2 \<le> MAX_ORDER shipped
   \<and> MAX_ORDER shipped \<le> length (aged ami_id 50 [7, 4, 4, 3, 3, 2, 0])
   \<and> 2 \<in> {2 .. MAX_ORDER shipped}
   \<and> 2 ^ 2 \<le> DAYS_TO_KEEP_BACKUPS shipped
   \<and> distinct (map image_id (aged ami_id 50 [7, 4, 4, 3, 3, 2, 0]))
   \<and> 1 < length (aged ami_id 50 [7, 4, 4, 3, 3, 2, 0])
   \<and> in_bucket 2 (50 - created_at (aged ami_id 50 [7, 4, 4, 3, 3, 2, 0] ! 1))
   \<and> (\<exists>s'. prune shipped None (aged ami_id 50 [7, 4, 4, 3, 3, 2, 0]) 50 Map.empty = Inr s'
          \<and> aws_removed s' =
              [\<lparr>pos = 2, call_image_id = ''ami-c'', call_snapshots = []\<rparr>,
               \<lparr>pos = 3, call_image_id = ''ami-d'', call_snapshots = []\<rparr>,
               \<lparr>pos = 4, call_image_id = ''ami-e'', call_snapshots = []\<rparr>]
          \<and> survivors s'
              = filter (\<lambda>b. image_id b \<notin> call_image_id ` set (aws_removed s'))
                  (aged ami_id 50 [7, 4, 4, 3, 3, 2, 0])
          \<and> length (filter (\<lambda>b. in_bucket 2 (50 - created_at b)) (survivors s')) \<le> 1
          \<and> 1 \<notin> set (removed_positions s')
          \<and> \<not> in_bucket 2 (50 - created_at (aged ami_id 50 [7, 4, 4, 3, 3, 2, 0] ! 0)))"
proof -
  let ?g = "aged ami_id 50 [7, 4, 4, 3, 3, 2, 0]"
  have h: "sorted (map created_at ?g)" "2 \<le> MAX_ORDER shipped"
    "MAX_ORDER shipped \<le> length ?g" "2 \<in> {2 .. MAX_ORDER shipped}"
    and b: "2 ^ 2 \<le> DAYS_TO_KEEP_BACKUPS shipped"
    and d: "distinct (map image_id ?g)"
    and m: "1 < length ?g" "in_bucket 2 (50 - created_at (?g ! 1))"
    by (simp_all add: aged_def shipped_def ami_id_def in_bucket_def)
  have run: "\<exists>s'. prune shipped None ?g 50 Map.empty = Inr s'
               \<and> aws_removed s' =
                   [\<lparr>pos = 2, call_image_id = ''ami-c'', call_snapshots = []\<rparr>,
                    \<lparr>pos = 3, call_image_id = ''ami-d'', call_snapshots = []\<rparr>,
                    \<lparr>pos = 4, call_image_id = ''ami-e'', call_snapshots = []\<rparr>]"
    by (simp add: engine_defs shipped_def aged_def ami_id_def snapshots_of_def Let_def)
  from one_survivor_per_bucket [OF h, of None 50 Map.empty] b d obtain s' where
    s': "prune shipped None ?g 50 Map.empty = Inr s'"
      "survivors s' = filter (\<lambda>b. image_id b \<notin> call_image_id ` set (aws_removed s')) ?g"
      "length (filter (\<lambda>b. in_bucket 2 (50 - created_at b)) (survivors s')) \<le> 1"
      "\<forall>i < length ?g.
          i \<notin> set (removed_positions s') \<and> in_bucket 2 (50 - created_at (?g ! i)) \<longrightarrow>
          (\<forall>j < i. \<not> in_bucket 2 (50 - created_at (?g ! j)))"
    by blast
  from run s'(1) have tr:
    "aws_removed s' = [\<lparr>pos = 2, call_image_id = ''ami-c'', call_snapshots = []\<rparr>,
                       \<lparr>pos = 3, call_image_id = ''ami-d'', call_snapshots = []\<rparr>,
                       \<lparr>pos = 4, call_image_id = ''ami-e'', call_snapshots = []\<rparr>]"
    by auto
  then have k: "1 \<notin> set (removed_positions s')" by (simp add: removed_positions_def)
  from s'(4) m k have "\<forall>j < 1. \<not> in_bucket 2 (50 - created_at (?g ! j))" by blast
  then have f: "\<not> in_bucket 2 (50 - created_at (?g ! 0))" by simp
  show ?thesis
    apply (intro conjI)
            apply (rule h(1))
           apply (rule h(2))
          apply (rule h(3))
         apply (rule h(4))
        apply (rule b)
       apply (rule d)
      apply (rule m(1))
     apply (rule m(2))
    apply (rule exI [of _ s'])
    apply (intro conjI)
         apply (rule s'(1))
        apply (rule tr)
       apply (rule s'(2))
      apply (rule s'(3))
     apply (rule k)
    apply (rule f)
    done
qed

text \<open>
  C1 as stated, for every sorted input, fails on a group that the early return leaves
  alone: with the shipped policy the deletion callback is never called on the two images
  of ages 4 and 3, both survive, and both ages lie in the bucket of order 2.
\<close>

theorem two_survivors_in_bucket_counterexample:
  "deletion_calls (prune shipped None (aged ami_id 50 [4, 3]) 50 Map.empty) = Inr []
   \<and> kept_ages (prune shipped None (aged ami_id 50 [4, 3]) 50 Map.empty) = Inr [4, 3]
   \<and> map_sum id survivors (prune shipped None (aged ami_id 50 [4, 3]) 50 Map.empty)
       = Inr (aged ami_id 50 [4, 3])
   \<and> in_bucket 2 4 \<and> in_bucket 2 3"
  by (simp add: engine_defs shipped_def aged_def kept_ages_def survivors_def removed_positions_def
        deletion_calls_def in_bucket_def Let_def)

text \<open>
  The bound on \<open>DAYS_TO_KEEP_BACKUPS\<close> is needed for the second part: with
  \<open>MAX_ORDER = 6\<close> and \<open>DAYS_TO_KEEP_BACKUPS = 40\<close>, below \<open>2 ^ 6\<close>, the first loop deletes
  the images of ages 50 and 45, and the survivor of the bucket of order 6 is the image of
  age 44.
\<close>

lemma oldest_lost_under_short_retention:
  "kept_ages (prune \<lparr>MAX_ORDER = 6, DAYS_TO_KEEP_BACKUPS = 40\<rparr> None
       (aged ami_id 50 [50, 45, 44, 3, 2, 1, 0]) 50 Map.empty) = Inr [44, 3, 2, 1, 0]
   \<and> deletion_calls (prune \<lparr>MAX_ORDER = 6, DAYS_TO_KEEP_BACKUPS = 40\<rparr> None
       (aged ami_id 50 [50, 45, 44, 3, 2, 1, 0]) 50 Map.empty)
     = Inr [\<lparr>pos = 0, call_image_id = ''ami-a'', call_snapshots = []\<rparr>,
            \<lparr>pos = 1, call_image_id = ''ami-b'', call_snapshots = []\<rparr>]"
  by (simp add: engine_defs aged_def ami_id_def snapshots_of_def kept_ages_def survivors_def
        removed_positions_def deletion_calls_def Let_def)

text \<open>
  C7. On a group sorted by creation date, under a policy with \<open>MAX_ORDER\<close> at least 2, a
  run returns normally, and a second run at the same day on the survivors of the first
  returns normally without calling the deletion callback: its survivors are those of the
  first run.
\<close>

theorem prune_idempotent:
  assumes "sorted (map created_at imgs)" and "2 \<le> MAX_ORDER p"
  shows "\<exists>s1. prune p nm imgs td snaps = Inr s1
           \<and> (\<exists>s2. prune p nm (survivors s1) td snaps = Inr s2
                  \<and> aws_removed s2 = [] \<and> survivors s2 = survivors s1)"
proof -
  let ?s = "BackupSet_init nm imgs td snaps"
  let ?l = "length imgs"
  from prune_run [OF assms, of nm td snaps] obtain s1 where
    s1: "prune p nm imgs td snaps = Inr s1" "images s1 = imgs"
      "removed_positions s1 =
         (if ?l < MAX_ORDER p then [] else filter (doomed p (ages ?s)) [0 ..< ?l])"
    by blast
  let ?S = "survivors s1"
  have inc: "sorted_wrt (<) (filter (\<lambda>i. i \<notin> set (removed_positions s1)) [0 ..< ?l])"
    by (simp add: sorted_wrt_filter)
  have "sorted_wrt (\<lambda>i j. created_at (imgs ! i) \<le> created_at (imgs ! j))
          (filter (\<lambda>i. i \<notin> set (removed_positions s1)) [0 ..< ?l])"
  proof (rule sorted_wrt_mono_rel [OF _ inc])
    fix i j
    assume "i \<in> set (filter (\<lambda>i. i \<notin> set (removed_positions s1)) [0 ..< ?l])"
      "j \<in> set (filter (\<lambda>i. i \<notin> set (removed_positions s1)) [0 ..< ?l])" "i < j"
    then have "i \<le> j" "j < ?l" by simp_all
    then show "created_at (imgs ! i) \<le> created_at (imgs ! j)"
      by (rule created_at_mono [OF assms(1)])
  qed
  then have srtS: "sorted (map created_at ?S)"
    by (simp add: survivors_def s1(2) sorted_wrt_map comp_def)
  from prune_run [OF srtS assms(2), of nm td snaps] obtain s2 where
    s2: "prune p nm ?S td snaps = Inr s2" "images s2 = ?S"
      "removed_positions s2 =
         (if length ?S < MAX_ORDER p then []
          else filter (doomed p (ages (BackupSet_init nm ?S td snaps))) [0 ..< length ?S])"
    by blast
  have none: "removed_positions s2 = []"
  proof (cases "length ?S < MAX_ORDER p")
    case True
    then show ?thesis using s2(3) by simp
  next
    case False
    have "length ?S \<le> ?l"
      using length_filter_le [of "\<lambda>i. i \<notin> set (removed_positions s1)" "[0 ..< ?l]"]
      by (simp add: survivors_def s1(2))
    then have big: "MAX_ORDER p \<le> ?l" using False by simp
    then have r1: "removed_positions s1 = filter (doomed p (ages ?s)) [0 ..< ?l]"
      using s1(3) by simp
    define ps where "ps = filter (\<lambda>i. \<not> doomed p (ages ?s) i) [0 ..< ?l]"
    have "filter (\<lambda>i. i \<notin> set (removed_positions s1)) [0 ..< ?l] = ps"
      unfolding ps_def r1 by (intro filter_cong) auto
    then have S: "?S = map (\<lambda>i. imgs ! i) ps" by (simp add: survivors_def s1(2))
    have "\<not> doomed p (ages (BackupSet_init nm ?S td snaps)) j" if "j < length ?S" for j
      using survivors_untouched_by_second_run [OF assms big ps_def, of j] that
      by (simp add: S)
    then have "filter (doomed p (ages (BackupSet_init nm ?S td snaps))) [0 ..< length ?S] = []"
      by (simp add: filter_empty_conv)
    then show ?thesis using s2(3) False by simp
  qed
  then have "aws_removed s2 = []" by (simp add: removed_positions_def)
  moreover have "survivors s2 = ?S" using survivors_nothing_removed [OF none] s2(2) by simp
  ultimately show ?thesis using s1(1) s2(1) by blast
qed

theorem prune_idempotent_witness:
  "sorted (map created_at (aged (\<lambda>i. ''ami'') 50 [400, 70, 40, 33, 7, 6, 5, 3, 1, 0]))
   \<and> 2 \<le> MAX_ORDER shipped
   \<and> (\<exists>s1. prune shipped None (aged (\<lambda>i. ''ami'') 50 [400, 70, 40, 33, 7, 6, 5, 3, 1, 0])
              50 Map.empty = Inr s1
          \<and> (\<exists>s2. prune shipped None (survivors s1) 50 Map.empty = Inr s2
                 \<and> aws_removed s2 = [] \<and> survivors s2 = survivors s1))"
proof -
  let ?g = "aged (\<lambda>i. ''ami'') 50 [400, 70, 40, 33, 7, 6, 5, 3, 1, 0]"
  have h: "sorted (map created_at ?g)" "2 \<le> MAX_ORDER shipped"
    by (simp_all add: aged_def shipped_def)
  from prune_idempotent [OF h, of None 50 Map.empty] h show ?thesis
    by blast
qed

text \<open>
  C9. For every policy with \<open>MAX_ORDER\<close> at least 2 and every list of images, sorted or
  not, the run returns normally with the cursor at most the length of the list. In each
  of the three \<open>while\<close> loops, started in any state, an iteration (the test of the loop
  holds) is one call of \<open>_remove_and_inc\<close> or of \<open>_keep_and_inc\<close> that moves the cursor
  forward by exactly one and leaves it at most the length of the list, and the loop goes
  on from there; a loop that returns leaves the cursor where it was or further, at most
  at the length of the list once it has moved, and in the two deleting loops the number
  of calls of the deletion callback is the distance the cursor has moved, while the
  keeping loop calls it on nothing. The bucket loop runs over \<open>MAX_ORDER - 1\<close> values of
  \<open>n\<close> and keeps at most one image for each: the cursor moves by at most the number of
  calls of the callback plus \<open>MAX_ORDER - 1\<close>.
\<close>

theorem prune_terminates:
  assumes "2 \<le> MAX_ORDER p"
  shows "(\<exists>s'. prune p nm imgs td snaps = Inr s' \<and> backup_num s' \<le> length imgs)
         \<and> (remove_really_old p t = Inr t' \<longrightarrow>
               backup_num t \<le> backup_num t'
               \<and> (backup_num t' = backup_num t \<or> backup_num t' \<le> length (images t))
               \<and> length (aws_removed t')
                   = length (aws_removed t) + (backup_num t' - backup_num t)
               \<and> (backup_days_ago t = Some d \<and> d > DAYS_TO_KEEP_BACKUPS p
                    \<and> int (length (images t)) - int (backup_num t) \<ge> int (MAX_ORDER p) \<longrightarrow>
                    backup_num t < backup_num t'
                    \<and> (\<exists>b1 t1. remove_and_inc t = Inr (b1, t1)
                          \<and> backup_num t1 = backup_num t + 1
                          \<and> backup_num t1 \<le> length (images t)
                          \<and> remove_really_old p t1 = Inr t')))
         \<and> (skip_older u t = Inr (b, t') \<longrightarrow>
               backup_num t \<le> backup_num t'
               \<and> (backup_num t' = backup_num t \<or> backup_num t' \<le> length (images t))
               \<and> aws_removed t' = aws_removed t
               \<and> (backup_days_ago t = Some d \<and> d > u \<longrightarrow>
                    backup_num t < backup_num t'
                    \<and> (\<exists>b1 t1. keep_and_inc t = Inr (b1, t1)
                          \<and> backup_num t1 = backup_num t + 1
                          \<and> backup_num t1 \<le> length (images t)
                          \<and> (if b1 then b \<and> t' = t1 else skip_older u t1 = Inr (b, t')))))
         \<and> (remove_others u t = Inr (b, t') \<longrightarrow>
               backup_num t \<le> backup_num t'
               \<and> (backup_num t' = backup_num t \<or> backup_num t' \<le> length (images t))
               \<and> length (aws_removed t')
                   = length (aws_removed t) + (backup_num t' - backup_num t)
               \<and> (backup_days_ago t = Some d \<and> d > u \<longrightarrow>
                    backup_num t < backup_num t'
                    \<and> (\<exists>b1 t1. remove_and_inc t = Inr (b1, t1)
                          \<and> backup_num t1 = backup_num t + 1
                          \<and> backup_num t1 \<le> length (images t)
                          \<and> (if b1 then b \<and> t' = t1
                              else remove_others u t1 = Inr (b, t')))))
         \<and> (buckets (orders (MAX_ORDER p)) t = Inr t' \<longrightarrow>
               backup_num t \<le> backup_num t'
               \<and> (backup_num t' = backup_num t \<or> backup_num t' \<le> length (images t))
               \<and> backup_num t' - backup_num t
                   \<le> length (aws_removed t') - length (aws_removed t) + (MAX_ORDER p - 1))
         \<and> length (orders (MAX_ORDER p)) = MAX_ORDER p - 1"
proof -
  have "backup_num (BackupSet_init nm imgs td snaps) = 0" by (simp add: BackupSet_init_def)
  from remove_old_backups_returns [OF this assms]
  have ret: "\<exists>s'. prune p nm imgs td snaps = Inr s' \<and> backup_num s' \<le> length imgs"
    by (auto simp: prune_def images_init)
  have l1: "backup_num t \<le> backup_num t'
            \<and> (backup_num t' = backup_num t \<or> backup_num t' \<le> length (images t))
            \<and> length (aws_removed t') = length (aws_removed t) + (backup_num t' - backup_num t)
            \<and> (backup_days_ago t = Some d \<and> d > DAYS_TO_KEEP_BACKUPS p
                 \<and> int (length (images t)) - int (backup_num t) \<ge> int (MAX_ORDER p) \<longrightarrow>
                 backup_num t < backup_num t'
                 \<and> (\<exists>b1 t1. remove_and_inc t = Inr (b1, t1)
                       \<and> backup_num t1 = backup_num t + 1
                       \<and> backup_num t1 \<le> length (images t)
                       \<and> remove_really_old p t1 = Inr t'))"
    if run: "remove_really_old p t = Inr t'"
    using remove_really_old_advance [OF run] remove_really_old_iteration [OF run, of d]
    by simp
  have l2: "backup_num t \<le> backup_num t'
            \<and> (backup_num t' = backup_num t \<or> backup_num t' \<le> length (images t))
            \<and> aws_removed t' = aws_removed t
            \<and> (backup_days_ago t = Some d \<and> d > u \<longrightarrow>
                 backup_num t < backup_num t'
                 \<and> (\<exists>b1 t1. keep_and_inc t = Inr (b1, t1)
                       \<and> backup_num t1 = backup_num t + 1
                       \<and> backup_num t1 \<le> length (images t)
                       \<and> (if b1 then b \<and> t' = t1 else skip_older u t1 = Inr (b, t'))))"
    if run: "skip_older u t = Inr (b, t')"
    using skip_older_advance [OF run] skip_older_iteration [OF run, of d]
    by simp
  have l3: "backup_num t \<le> backup_num t'
            \<and> (backup_num t' = backup_num t \<or> backup_num t' \<le> length (images t))
            \<and> length (aws_removed t') = length (aws_removed t) + (backup_num t' - backup_num t)
            \<and> (backup_days_ago t = Some d \<and> d > u \<longrightarrow>
                 backup_num t < backup_num t'
                 \<and> (\<exists>b1 t1. remove_and_inc t = Inr (b1, t1)
                       \<and> backup_num t1 = backup_num t + 1
                       \<and> backup_num t1 \<le> length (images t)
                       \<and> (if b1 then b \<and> t' = t1 else remove_others u t1 = Inr (b, t'))))"
    if run: "remove_others u t = Inr (b, t')"
    using remove_others_advance [OF run] remove_others_iteration [OF run, of d]
    by simp
  have l4: "backup_num t \<le> backup_num t'
            \<and> (backup_num t' = backup_num t \<or> backup_num t' \<le> length (images t))
            \<and> backup_num t' - backup_num t
                \<le> length (aws_removed t') - length (aws_removed t) + (MAX_ORDER p - 1)"
    if run: "buckets (orders (MAX_ORDER p)) t = Inr t'"
    using buckets_advance [OF run] unfolding length_orders by linarith
  show ?thesis
    apply (rule conjI [OF ret])
    apply (rule conjI, rule impI, erule l1)
    apply (rule conjI, rule impI, erule l2)
    apply (rule conjI, rule impI, erule l3)
    apply (rule conjI, rule impI, erule l4)
    apply (rule length_orders)
    done
qed

theorem prune_terminates_witness:
  "2 \<le> MAX_ORDER shipped
   \<and> (\<exists>s'. prune shipped None (aged ami_id 50 [3, 90, 0, 500, 7, 7, 12]) 50 Map.empty = Inr s'
          \<and> backup_num s' \<le> length (aged ami_id 50 [3, 90, 0, 500, 7, 7, 12]))
   \<and> (\<exists>t0 t1 t2 k1 k2 t3.
          update_days_ago
            (BackupSet_init None (aged ami_id 50 [400, 400, 70, 40, 35, 7, 3, 0]) 50 Map.empty)
            = Inr t0
          \<and> backup_days_ago t0 = Some 400 \<and> backup_num t0 = 0 \<and> length (images t0) = 8
          \<and> remove_really_old shipped t0 = Inr t1
          \<and> backup_num t0 < backup_num t1 \<and> backup_num t1 \<le> length (images t0)
          \<and> length (aws_removed t1) = length (aws_removed t0) + (backup_num t1 - backup_num t0)
          \<and> (\<exists>b1 s1. remove_and_inc t0 = Inr (b1, s1) \<and> backup_num s1 = backup_num t0 + 1
                 \<and> backup_num s1 \<le> length (images t0)
                 \<and> remove_really_old shipped s1 = Inr t1)
          \<and> backup_days_ago t1 = Some 70
          \<and> skip_older 64 t1 = Inr (False, t2)
          \<and> backup_num t1 < backup_num t2 \<and> backup_num t2 \<le> length (images t1)
          \<and> aws_removed t2 = aws_removed t1
          \<and> (\<exists>b1 s1. keep_and_inc t1 = Inr (b1, s1) \<and> backup_num s1 = backup_num t1 + 1
                 \<and> backup_num s1 \<le> length (images t1)
                 \<and> (if b1 then False \<and> t2 = s1 else skip_older 64 s1 = Inr (False, t2)))
          \<and> keep_and_inc t2 = Inr (False, k1)
          \<and> backup_days_ago k1 = Some 35
          \<and> remove_others 32 k1 = Inr (False, k2)
          \<and> backup_num k1 < backup_num k2 \<and> backup_num k2 \<le> length (images k1)
          \<and> length (aws_removed k2) = length (aws_removed k1) + (backup_num k2 - backup_num k1)
          \<and> (\<exists>b1 s1. remove_and_inc k1 = Inr (b1, s1) \<and> backup_num s1 = backup_num k1 + 1
                 \<and> backup_num s1 \<le> length (images k1)
                 \<and> (if b1 then False \<and> k2 = s1 else remove_others 32 s1 = Inr (False, k2)))
          \<and> buckets (orders (MAX_ORDER shipped)) t2 = Inr t3
          \<and> backup_num t2 \<le> backup_num t3 \<and> backup_num t3 \<le> length (images t2)
          \<and> backup_num t3 - backup_num t2
               \<le> length (aws_removed t3) - length (aws_removed t2) + (MAX_ORDER shipped - 1)
          \<and> backup_num t2 = 3 \<and> backup_num t3 = 7
          \<and> length (aws_removed t2) = 2 \<and> length (aws_removed t3) = 3)
   \<and> length (orders (MAX_ORDER shipped)) = 5"
proof -
  let ?I = "BackupSet_init None (aged ami_id 50 [400, 400, 70, 40, 35, 7, 3, 0]) 50 Map.empty"
  let ?c0 = "\<lparr>pos = 0, call_image_id = ''ami-a'', call_snapshots = []\<rparr>"
  let ?c1 = "\<lparr>pos = 1, call_image_id = ''ami-b'', call_snapshots = []\<rparr>"
  let ?c4 = "\<lparr>pos = 4, call_image_id = ''ami-e'', call_snapshots = []\<rparr>"
  let ?t0 = "?I\<lparr>backup_days_ago := Some 400\<rparr>"
  let ?t1 = "?I\<lparr>backup_num := 2, backup_days_ago := Some 70, aws_removed := [?c0, ?c1]\<rparr>"
  let ?t2 = "?I\<lparr>backup_num := 3, backup_days_ago := Some 40, aws_removed := [?c0, ?c1]\<rparr>"
  let ?k1 = "?I\<lparr>backup_num := 4, backup_days_ago := Some 35, aws_removed := [?c0, ?c1]\<rparr>"
  let ?k2 = "?I\<lparr>backup_num := 5, backup_days_ago := Some 7, aws_removed := [?c0, ?c1, ?c4]\<rparr>"
  let ?t3 = "?I\<lparr>backup_num := 7, backup_days_ago := Some 0, aws_removed := [?c0, ?c1, ?c4]\<rparr>"
  have h: "2 \<le> MAX_ORDER shipped" by (simp add: shipped_def)
  have five: "MAX_ORDER shipped - 1 = 5" by (simp add: shipped_def)
  have e0: "update_days_ago ?I = Inr ?t0"
    by (simp add: engine_defs aged_def)
  have e1: "remove_really_old shipped ?t0 = Inr ?t1"
    by (simp add: engine_defs shipped_def aged_def ami_id_def snapshots_of_def Let_def)
  have e2: "skip_older 64 ?t1 = Inr (False, ?t2)"
    by (simp add: engine_defs shipped_def aged_def ami_id_def snapshots_of_def Let_def)
  have e3: "keep_and_inc ?t2 = Inr (False, ?k1)"
    by (simp add: engine_defs shipped_def aged_def ami_id_def snapshots_of_def Let_def)
  have e4: "remove_others 32 ?k1 = Inr (False, ?k2)"
    by (simp add: engine_defs shipped_def aged_def ami_id_def snapshots_of_def Let_def)
  have e5: "buckets (orders (MAX_ORDER shipped)) ?t2 = Inr ?t3"
    by (simp add: engine_defs shipped_def aged_def ami_id_def snapshots_of_def Let_def)
  have f0: "backup_days_ago ?t0 = Some 400 \<and> backup_num ?t0 = 0 \<and> length (images ?t0) = 8"
    by (simp add: BackupSet_init_def aged_def)
  have g0: "backup_days_ago ?t0 = Some 400 \<and> 400 > DAYS_TO_KEEP_BACKUPS shipped
              \<and> int (length (images ?t0)) - int (backup_num ?t0) \<ge> int (MAX_ORDER shipped)"
    by (simp add: BackupSet_init_def aged_def shipped_def)
  have g1: "backup_days_ago ?t1 = Some 70 \<and> (70::int) > 64" by simp
  have g3: "backup_days_ago ?k1 = Some 35 \<and> (35::int) > 32" by simp
  have n: "backup_num ?t2 = 3 \<and> backup_num ?t3 = 7
           \<and> length (aws_removed ?t2) = 2 \<and> length (aws_removed ?t3) = 3"
    by simp
  note A = prune_terminates [OF h, of None "aged ami_id 50 [3, 90, 0, 500, 7, 7, 12]" 50
      Map.empty ?t0 ?t1 400 64 False, THEN conjunct1]
  note L1 = prune_terminates [OF h, of None "[]" 50 Map.empty ?t0 ?t1 400 64 False,
      THEN conjunct2, THEN conjunct1, THEN mp, OF e1]
  note L2 = prune_terminates [OF h, of None "[]" 50 Map.empty ?t1 ?t2 70 64 False,
      THEN conjunct2, THEN conjunct2, THEN conjunct1, THEN mp, OF e2]
  note L3 = prune_terminates [OF h, of None "[]" 50 Map.empty ?k1 ?k2 35 32 False,
      THEN conjunct2, THEN conjunct2, THEN conjunct2, THEN conjunct1, THEN mp, OF e4]
  note L4 = prune_terminates [OF h, of None "[]" 50 Map.empty ?t2 ?t3 0 0 False,
      THEN conjunct2, THEN conjunct2, THEN conjunct2, THEN conjunct2, THEN conjunct1,
      THEN mp, OF e5]
  note I1 = L1 [THEN conjunct2, THEN conjunct2, THEN conjunct2, THEN mp, OF g0]
  note I2 = L2 [THEN conjunct2, THEN conjunct2, THEN conjunct2, THEN mp, OF g1]
  note I3 = L3 [THEN conjunct2, THEN conjunct2, THEN conjunct2, THEN mp, OF g3]
  have B: "\<exists>t0 t1 t2 k1 k2 t3.
          update_days_ago
            (BackupSet_init None (aged ami_id 50 [400, 400, 70, 40, 35, 7, 3, 0]) 50 Map.empty)
            = Inr t0
          \<and> backup_days_ago t0 = Some 400 \<and> backup_num t0 = 0 \<and> length (images t0) = 8
          \<and> remove_really_old shipped t0 = Inr t1
          \<and> backup_num t0 < backup_num t1 \<and> backup_num t1 \<le> length (images t0)
          \<and> length (aws_removed t1) = length (aws_removed t0) + (backup_num t1 - backup_num t0)
          \<and> (\<exists>b1 s1. remove_and_inc t0 = Inr (b1, s1) \<and> backup_num s1 = backup_num t0 + 1
                 \<and> backup_num s1 \<le> length (images t0)
                 \<and> remove_really_old shipped s1 = Inr t1)
          \<and> backup_days_ago t1 = Some 70
          \<and> skip_older 64 t1 = Inr (False, t2)
          \<and> backup_num t1 < backup_num t2 \<and> backup_num t2 \<le> length (images t1)
          \<and> aws_removed t2 = aws_removed t1
          \<and> (\<exists>b1 s1. keep_and_inc t1 = Inr (b1, s1) \<and> backup_num s1 = backup_num t1 + 1
                 \<and> backup_num s1 \<le> length (images t1)
                 \<and> (if b1 then False \<and> t2 = s1 else skip_older 64 s1 = Inr (False, t2)))
          \<and> keep_and_inc t2 = Inr (False, k1)
          \<and> backup_days_ago k1 = Some 35
          \<and> remove_others 32 k1 = Inr (False, k2)
          \<and> backup_num k1 < backup_num k2 \<and> backup_num k2 \<le> length (images k1)
          \<and> length (aws_removed k2) = length (aws_removed k1) + (backup_num k2 - backup_num k1)
          \<and> (\<exists>b1 s1. remove_and_inc k1 = Inr (b1, s1) \<and> backup_num s1 = backup_num k1 + 1
                 \<and> backup_num s1 \<le> length (images k1)
                 \<and> (if b1 then False \<and> k2 = s1 else remove_others 32 s1 = Inr (False, k2)))
          \<and> buckets (orders (MAX_ORDER shipped)) t2 = Inr t3
          \<and> backup_num t2 \<le> backup_num t3 \<and> backup_num t3 \<le> length (images t2)
          \<and> backup_num t3 - backup_num t2
               \<le> length (aws_removed t3) - length (aws_removed t2) + (MAX_ORDER shipped - 1)
          \<and> backup_num t2 = 3 \<and> backup_num t3 = 7
          \<and> length (aws_removed t2) = 2 \<and> length (aws_removed t3) = 3"
    apply (rule exI [of _ ?t0], rule exI [of _ ?t1], rule exI [of _ ?t2])
    apply (rule exI [of _ ?k1], rule exI [of _ ?k2], rule exI [of _ ?t3])
    apply (intro conjI)
    apply (rule e0)
    apply (rule f0 [THEN conjunct1])
    apply (rule f0 [THEN conjunct2, THEN conjunct1])
    apply (rule f0 [THEN conjunct2, THEN conjunct2])
    apply (rule e1)
    apply (rule I1 [THEN conjunct1])
    subgoal using L1 [THEN conjunct2, THEN conjunct1] I1 [THEN conjunct1] by arith
    apply (rule L1 [THEN conjunct2, THEN conjunct2, THEN conjunct1])
    apply (rule I1 [THEN conjunct2])
    apply (rule g1 [THEN conjunct1])
    apply (rule e2)
    apply (rule I2 [THEN conjunct1])
    subgoal using L2 [THEN conjunct2, THEN conjunct1] I2 [THEN conjunct1] by arith
    apply (rule L2 [THEN conjunct2, THEN conjunct2, THEN conjunct1])
    apply (rule I2 [THEN conjunct2])
    apply (rule e3)
    apply (rule g3 [THEN conjunct1])
    apply (rule e4)
    apply (rule I3 [THEN conjunct1])
    subgoal using L3 [THEN conjunct2, THEN conjunct1] I3 [THEN conjunct1] by arith
    apply (rule L3 [THEN conjunct2, THEN conjunct2, THEN conjunct1])
    apply (rule I3 [THEN conjunct2])
    apply (rule e5)
    apply (rule L4 [THEN conjunct1])
    subgoal using L4 [THEN conjunct2, THEN conjunct1] by (simp add: BackupSet_init_def aged_def)
    apply (rule L4 [THEN conjunct2, THEN conjunct2])
    apply (simp_all)
    done
  show ?thesis
    apply (rule conjI [OF h])
    apply (rule conjI [OF A])
    apply (rule conjI [OF B])
    apply (simp add: orders_def shipped_def)
    done
qed

text \<open>
  C4. The code breaks the claim. On six images that are all 400 days old the first loop
  passes the oldest one to the deletion callback, because six images are still unvisited
  and its test is \<open>>=\<close>; five images are left, fewer than \<open>MAX_ORDER = 6\<close>.
\<close>

theorem age_rule_leaves_five_of_six:
  "removed_ages (prune shipped nm (aged ids td [400, 400, 400, 400, 400, 400]) td snaps)
     = Inr [400]
   \<and> kept_ages (prune shipped nm (aged ids td [400, 400, 400, 400, 400, 400]) td snaps)
     = Inr [400, 400, 400, 400, 400]"
  by (simp add: engine_defs shipped_def aged_def removed_ages_def kept_ages_def survivors_def
        removed_positions_def Let_def age_of_aged)

section \<open>The properties of the orchestrator and of the catalog\<close>

text \<open>
  C5, as the code has it. When the handler returns normally (policy with \<open>MAX_ORDER\<close> at
  least 2), the catalog was read by \<open>get_images\<close> before any instance was handled, and
  the handler built one \<open>BackupSet\<close> for every instance that is not an OpsWorks one, in
  order; its image list is the group the catalog holds under the instance's name, sorted
  by creation date, and empty when the catalog has no such group. A backup requested by
  \<open>create_image\<close> during the invocation is in none of these lists.
\<close>

theorem engine_input_is_catalog_history:
  assumes "lambda_handler p strftime strptime td response snaps instances = Inr w"
    and "2 \<le> MAX_ORDER p"
  shows "\<exists>cat. get_images strptime response = Inr cat
           \<and> map images (backup_sets w)
               = map (\<lambda>i. sort_key created_at (group_of cat (resource_name i)))
                   (filter is_processed instances)"
proof -
  from assms(1) obtain cat where
    cat: "get_images strptime response = Inr cat"
      "handle_all p strftime td snaps \<lparr>all_images = cat, ec_calls = [], backup_sets = []\<rparr> instances
         = Inr w"
    by (cases "get_images strptime response") (simp_all add: lambda_handler_def)
  from handle_all_run [OF cat(2) assms(2), of cat] show ?thesis using cat(1) by simp
qed

lemmas handler_defs = lambda_handler_def get_images_def handle_instance_def images_of_def
  backup_instance_def get_tag_def remove_backup_def format_desc_name_def DESC_NAMES_def
  PREFIX_NAMES_def date_part_def isdigit_def strftime_day100_def strptime_nov2026_def
  web_history_def web_server_def

lemma web_scenario:
  "lambda_handler shipped strftime_day100 strptime_nov2026 100 web_history Map.empty web_server
     = Inr \<lparr>all_images = [''web'' \<mapsto> [\<lparr>image_id = ''ami-1'', created_at = 99\<rparr>]],
            ec_calls = [CreateImage ''i-1'' ''web-110326'' ''Unknown as of 11/03/2026'' True],
            backup_sets = [BackupSet_init (Some ''web'') [\<lparr>image_id = ''ami-1'', created_at = 99\<rparr>]
                             100 Map.empty]\<rparr>"
  by (simp add: handler_defs prune_def remove_old_backups_def BackupSet_init_def shipped_def Let_def)

theorem engine_input_is_catalog_history_witness:
  "2 \<le> MAX_ORDER shipped
   \<and> lambda_handler shipped strftime_day100 strptime_nov2026 100 web_history Map.empty web_server
       = Inr \<lparr>all_images = [''web'' \<mapsto> [\<lparr>image_id = ''ami-1'', created_at = 99\<rparr>]],
              ec_calls = [CreateImage ''i-1'' ''web-110326'' ''Unknown as of 11/03/2026'' True],
              backup_sets = [BackupSet_init (Some ''web'')
                               [\<lparr>image_id = ''ami-1'', created_at = 99\<rparr>] 100 Map.empty]\<rparr>
   \<and> (\<exists>cat. get_images strptime_nov2026 web_history = Inr cat
          \<and> [[\<lparr>image_id = ''ami-1'', created_at = 99\<rparr>]]
              = map (\<lambda>i. sort_key created_at (group_of cat (resource_name i)))
                  (filter is_processed web_server))"
proof -
  have h: "2 \<le> MAX_ORDER shipped" by (simp add: shipped_def)
  from engine_input_is_catalog_history [OF web_scenario h] h web_scenario show ?thesis
    by (simp add: BackupSet_init_def)
qed

text \<open>
  C5 as stated fails: the instance \<open>web\<close> has one image, of the day before, so the handler
  calls \<open>create_image\<close> for today; the list it then gives to the \<open>BackupSet\<close> is the old
  image alone, and the backup just requested is not in it.
\<close>

theorem created_backup_not_passed_counterexample:
  "map_sum id (\<lambda>w. (ec_calls w, map images (backup_sets w)))
     (lambda_handler shipped strftime_day100 strptime_nov2026 100 web_history Map.empty web_server)
   = Inr ([CreateImage ''i-1'' ''web-110326'' ''Unknown as of 11/03/2026'' True],
          [[\<lparr>image_id = ''ami-1'', created_at = 99\<rparr>]])"
  by (simp add: web_scenario BackupSet_init_def)

text \<open>
  C10. When \<open>get_images\<close> returns, the list it holds under a key is made of the entries
  of exactly those images of the response, in order, that are not public and whose name
  is the key, a \<open>-\<close> at a position greater than 0, and then digits only, at least one;
  a key with no such image is absent. So the images found in some group are exactly the
  entries of the accepted images. No other image is seen later: in an invocation of the
  handler that returns (policy with \<open>MAX_ORDER\<close> at least 2), every image of every
  \<open>BackupSet\<close> is the entry of an accepted image, and every \<open>deregister_image\<close> call names
  the identifier of an accepted image.
\<close>

theorem catalog_accepts_dashed_names:
  assumes "get_images strptime response = Inr cat"
  shows "cat key = (case map (entry strptime)
                           (filter (\<lambda>i. \<not> Public i \<and> named_for (Name i) key) response) of
                      [] \<Rightarrow> None
                    | x # xs \<Rightarrow> Some (x # xs))
         \<and> (\<Union>key. set (group_of cat key)) = entry strptime ` {i \<in> set response. accepted i}
         \<and> (lambda_handler p strftime strptime td response snaps instances = Inr w
              \<and> 2 \<le> MAX_ORDER p \<longrightarrow>
              (\<forall>bs \<in> set (backup_sets w).
                  set (images bs) \<subseteq> entry strptime ` {i \<in> set response. accepted i})
              \<and> (\<forall>x. DeregisterImage x \<in> set (ec_calls w) \<longrightarrow>
                     x \<in> ImageId ` {i \<in> set response. accepted i}))"
proof -
  let ?ok = "entry strptime ` {i \<in> set response. accepted i}"
  have first: "cat key = (case map (entry strptime)
                           (filter (\<lambda>i. \<not> Public i \<and> named_for (Name i) key) response) of
                      [] \<Rightarrow> None
                    | x # xs \<Rightarrow> Some (x # xs))"
    using get_images_from_groups [OF assms [unfolded get_images_def], of key]
    by (simp add: group_key_named_for group_of_def split: list.splits)
  note members = catalog_members [OF assms]
  have third: "(\<forall>bs \<in> set (backup_sets w). set (images bs) \<subseteq> ?ok)
              \<and> (\<forall>x. DeregisterImage x \<in> set (ec_calls w) \<longrightarrow>
                     x \<in> ImageId ` {i \<in> set response. accepted i})"
    if run: "lambda_handler p strftime strptime td response snaps instances = Inr w"
      and mo: "2 \<le> MAX_ORDER p"
  proof -
    have "handle_all p strftime td snaps \<lparr>all_images = cat, ec_calls = [], backup_sets = []\<rparr>
            instances = Inr w"
      using run assms by (simp add: lambda_handler_def)
    from handle_all_run [OF this mo, of cat] have
      sets: "map images (backup_sets w)
               = map (\<lambda>i. sort_key created_at (group_of cat (resource_name i)))
                   (filter is_processed instances)"
      and ids: "\<forall>x. DeregisterImage x \<in> set (ec_calls w) \<longrightarrow>
                  x \<in> image_id ` (\<Union>k. set (group_of cat k))"
      by simp_all
    have "set (images bs) \<subseteq> ?ok" if "bs \<in> set (backup_sets w)" for bs
    proof -
      have "images bs \<in> set (map images (backup_sets w))" using that by simp
      then obtain i where "images bs = sort_key created_at (group_of cat (resource_name i))"
        unfolding sets by auto
      then have "set (images bs) \<subseteq> (\<Union>k. set (group_of cat k))" by auto
      then show ?thesis unfolding members .
    qed
    moreover have "x \<in> ImageId ` {i \<in> set response. accepted i}"
      if "DeregisterImage x \<in> set (ec_calls w)" for x
    proof -
      have "x \<in> image_id ` ?ok" using ids that unfolding members by blast
      then show ?thesis by (auto simp: entry_def)
    qed
    ultimately show ?thesis by blast
  qed
  show ?thesis using first members third by blast
qed

lemma mixed_catalog:
  "get_images strptime_nov2026 mixed_response
     = Inr [''web'' \<mapsto> [\<lparr>image_id = ''ami-1'', created_at = 99\<rparr>]]"
  by (simp add: get_images_def mixed_response_def date_part_def isdigit_def strptime_nov2026_def
        Let_def)

theorem catalog_accepts_dashed_names_witness:
  "get_images strptime_nov2026 mixed_response
     = Inr [''web'' \<mapsto> [\<lparr>image_id = ''ami-1'', created_at = 99\<rparr>]]
   \<and> (\<Union>key. set (group_of [''web'' \<mapsto> [\<lparr>image_id = ''ami-1'', created_at = 99\<rparr>]] key))
       = entry strptime_nov2026 ` {i \<in> set mixed_response. accepted i}"
  using mixed_catalog catalog_accepts_dashed_names [OF mixed_catalog, THEN conjunct2, THEN conjunct1]
  by (rule conjI)

end
